theory Spec2Isabelle
  imports Complex_Main "HOL-Library.Sublist" "HOL-Library.AList" "HOL-Library.Multiset"
begin

section \<open>Data model of \<^verbatim>\<open>main.py\<close>\<close>

text \<open>
  The service keeps three pieces of state: the in-memory priority queue of jobs, the
  timestamp of the last finished dispatch, and the status records held in Redis. Python
  integers are unbounded (\<open>int\<close>); the clock readings of \<^verbatim>\<open>time.time()\<close> are finite
  floats, modelled as rationals with exact arithmetic; the values of \<^verbatim>\<open>uuid.uuid4()\<close>
  are inputs of the model (a function from the number of the call to the string drawn).
\<close>

datatype Priority = HIGH | MEDIUM | LOW

fun get_value :: "Priority \<Rightarrow> int" where
  "get_value p = (if p = HIGH then 0 else if p = MEDIUM then 1 else 2)"

record IngestionRequest =
  req_ids :: "int list"
  req_priority :: Priority

datatype BatchStatus = YET_TO_START | TRIGGERED | COMPLETED

record Batch =
  batch_id :: string
  ids :: "int list"
  status :: BatchStatus

text \<open>The dictionary built by \<^verbatim>\<open>Batch.to_dict\<close>, as it is stored inside a status record.\<close>

record batch_dict =
  bd_batch_id :: string
  bd_ids :: "int list"
  bd_status :: BatchStatus

definition Batch_to_dict :: "Batch \<Rightarrow> batch_dict" where
  "Batch_to_dict b = \<lparr>bd_batch_id = batch_id b, bd_ids = ids b, bd_status = status b\<rparr>"

record IngestionJob =
  ingestion_id :: string
  job_ids :: "int list"
  priority :: Priority
  created_time :: rat
  batches :: "Batch list"

text \<open>
  \<^verbatim>\<open>_create_batches\<close>: the loop \<^verbatim>\<open>for i in range(0, len(self.ids), 3)\<close> appends one
  batch per step to \<^verbatim>\<open>self.batches\<close>; the slice \<^verbatim>\<open>ids[i:i+3]\<close> is \<open>take 3 (drop i ids)\<close>.
  The batch appended when \<open>acc\<close> is the list so far takes the next identifier drawn.
\<close>

function create_batches_loop :: "(nat \<Rightarrow> string) \<Rightarrow> int list \<Rightarrow> nat \<Rightarrow> Batch list \<Rightarrow> Batch list" where
  "create_batches_loop uuid4 xs i acc =
     (if i < length xs
      then create_batches_loop uuid4 xs (i + 3)
             (acc @ [\<lparr>batch_id = uuid4 (length acc), ids = take 3 (drop i xs), status = YET_TO_START\<rparr>])
      else acc)"
  by pat_completeness auto
termination
  by (relation "measure (\<lambda>(uuid4, xs, i, acc). length xs - i)") auto

declare create_batches_loop.simps [simp del]

definition create_batches :: "(nat \<Rightarrow> string) \<Rightarrow> int list \<Rightarrow> Batch list" where
  "create_batches uuid4 xs = create_batches_loop uuid4 xs 0 []"

definition IngestionJob_init ::
  "(nat \<Rightarrow> string) \<Rightarrow> string \<Rightarrow> int list \<Rightarrow> Priority \<Rightarrow> rat \<Rightarrow> IngestionJob" where
  "IngestionJob_init uuid4 iid xs p t =
     \<lparr>ingestion_id = iid, job_ids = xs, priority = p, created_time = t,
      batches = create_batches uuid4 xs\<rparr>"

text \<open>\<^verbatim>\<open>get_overall_status\<close>, with Python's \<^verbatim>\<open>all\<close> and \<^verbatim>\<open>any\<close> over the list of statuses.\<close>

definition get_overall_status :: "IngestionJob \<Rightarrow> BatchStatus" where
  "get_overall_status j =
     (let statuses = map status (batches j)
      in if list_all (\<lambda>s. s = COMPLETED) statuses then COMPLETED
         else if list_ex (\<lambda>s. s = TRIGGERED) statuses then TRIGGERED
         else YET_TO_START)"

section \<open>The priority queue\<close>

text \<open>
  The queue holds tuples \<^verbatim>\<open>(job.priority.get_value(), job)\<close>. Python compares tuples
  lexicographically: the ranks first and, when they are equal, the jobs with
  \<^verbatim>\<open>IngestionJob.__lt__\<close>.
\<close>

type_synonym entry = "int \<times> IngestionJob"

definition IngestionJob_lt :: "IngestionJob \<Rightarrow> IngestionJob \<Rightarrow> bool" where
  "IngestionJob_lt self other =
     (if get_value (priority self) \<noteq> get_value (priority other)
      then get_value (priority self) < get_value (priority other)
      else created_time self < created_time other)"

definition entry_lt :: "entry \<Rightarrow> entry \<Rightarrow> bool" where
  "entry_lt a b = (if fst a \<noteq> fst b then fst a < fst b else IngestionJob_lt (snd a) (snd b))"

text \<open>
  \<^verbatim>\<open>asyncio.PriorityQueue\<close> is library code: \<^verbatim>\<open>get\<close> hands out an entry that no other
  entry is smaller than (\<open>is_smallest\<close>), and leaves the others in the queue. The model
  keeps the entries in arrival order and \<open>pq_get\<close> takes the earliest arrived of the
  smallest entries; the heap may hand out another of the entries that tie, so what is
  stated about the order is stated of every smallest entry.
\<close>

definition is_smallest :: "entry \<Rightarrow> entry list \<Rightarrow> bool" where
  "is_smallest e q \<longleftrightarrow> e \<in> set q \<and> (\<forall>e' \<in> set q. \<not> entry_lt e' e)"

definition pq_put :: "entry list \<Rightarrow> entry \<Rightarrow> entry list" where
  "pq_put q e = q @ [e]"

fun smallest :: "entry \<Rightarrow> entry list \<Rightarrow> entry" where
  "smallest m [] = m"
| "smallest m (e # q) = smallest (if entry_lt e m then e else m) q"

definition pq_get :: "entry list \<Rightarrow> (entry \<times> entry list) option" where
  "pq_get q = (case q of [] \<Rightarrow> None | e # q' \<Rightarrow> Some (smallest e q', remove1 (smallest e q') q))"

fun pq_drain :: "nat \<Rightarrow> entry list \<Rightarrow> entry list" where
  "pq_drain 0 q = []"
| "pq_drain (Suc n) q = (case pq_get q of None \<Rightarrow> [] | Some (e, q') \<Rightarrow> e # pq_drain n q')"

section \<open>The status store\<close>

text \<open>
  A status record is the dictionary built by \<^verbatim>\<open>IngestionJob.to_dict\<close>; Redis holds its
  JSON text under the key \<^verbatim>\<open>ingestion:\<close> followed by the identifier. The model keeps the dictionaries
  themselves, as a list of key and value pairs: \<^verbatim>\<open>set\<close> overwrites in place or appends,
  \<^verbatim>\<open>get\<close> looks a key up, and \<^verbatim>\<open>keys("ingestion:*")\<close> enumerates the keys with that
  prefix in the order of the list.
\<close>

record job_data =
  jd_ingestion_id :: string
  jd_status :: BatchStatus
  jd_batches :: "batch_dict list"

type_synonym redis = "(string \<times> job_data) list"

definition IngestionJob_to_dict :: "IngestionJob \<Rightarrow> job_data" where
  "IngestionJob_to_dict j =
     \<lparr>jd_ingestion_id = ingestion_id j, jd_status = get_overall_status j,
      jd_batches = map Batch_to_dict (batches j)\<rparr>"

definition redis_get :: "redis \<Rightarrow> string \<Rightarrow> job_data option" where
  "redis_get r key = map_of r key"

definition redis_set :: "string \<Rightarrow> job_data \<Rightarrow> redis \<Rightarrow> redis" where
  "redis_set key v r = AList.update key v r"

definition redis_key :: "string \<Rightarrow> string" where
  "redis_key iid = ''ingestion:'' @ iid"

text \<open>
  \<^verbatim>\<open>update_redis_status\<close>. The inner loop writes the batch's status into the first
  dictionary of the record with the batch's identifier (\<open>None\<close>: the record has none);
  the outer loop goes through the records under the keys \<^verbatim>\<open>ingestion:*\<close>, rewrites the
  first record where the inner loop finds the batch, and returns.
\<close>

fun set_batch_status :: "batch_dict list \<Rightarrow> Batch \<Rightarrow> batch_dict list option" where
  "set_batch_status [] batch = None"
| "set_batch_status (b # bs) batch =
     (if bd_batch_id b = batch_id batch then Some (b\<lparr>bd_status := status batch\<rparr> # bs)
      else map_option ((#) b) (set_batch_status bs batch))"

fun update_redis_scan :: "(string \<times> job_data) list \<Rightarrow> Batch \<Rightarrow> redis \<Rightarrow> redis" where
  "update_redis_scan [] batch r = r"
| "update_redis_scan ((key, jd) # rest) batch r =
     (case set_batch_status (jd_batches jd) batch of
        Some bs \<Rightarrow> redis_set key (jd\<lparr>jd_batches := bs\<rparr>) r
      | None \<Rightarrow> update_redis_scan rest batch r)"

definition update_redis_status :: "Batch \<Rightarrow> redis \<Rightarrow> redis" where
  "update_redis_status batch r =
     update_redis_scan (filter (\<lambda>(key, jd). prefix ''ingestion:'' key) r) batch r"

section \<open>The service: requests and the scheduler loop\<close>

text \<open>
  The coroutine \<^verbatim>\<open>process_jobs\<close> is cut at its suspension points and between its
  statements: \<open>pc\<close> says where the loop stands and holds its local variables (the clock
  reading, the deadline of a sleep, the popped job and the index of the batch the
  \<^verbatim>\<open>for\<close> loop is at). The request handlers have no suspension point and run as one
  step each. A store call of the loop may raise: \<open>process_jobs_except\<close> is the
  \<^verbatim>\<open>except Exception\<close> branch. The loop is not cancelled.
\<close>

datatype pc =
    Loop_head
  | Throttle_check rat
  | Throttle_sleep rat
  | Queue_check
  | Batch_trigger IngestionJob nat
  | Batch_work IngestionJob nat rat
  | Idle_sleep rat
  | Error_sleep rat

record system =
  job_queue :: "entry list"
  last_processed_time :: rat
  redis_client :: redis
  clock :: rat
  loop_at :: pc

datatype detail = Invalid_ID int | Job_not_found

datatype HTTPException = HTTPException int detail

definition valid_id :: "int \<Rightarrow> bool" where
  "valid_id i \<longleftrightarrow> 1 \<le> i \<and> i \<le> 10 ^ 9 + 7"

definition ingest_data ::
  "IngestionRequest \<Rightarrow> string \<Rightarrow> (nat \<Rightarrow> string) \<Rightarrow> system \<Rightarrow> (HTTPException + string) \<times> system" where
  "ingest_data request iid uuid4 s =
     (case find (\<lambda>i. \<not> valid_id i) (req_ids request) of
        Some i \<Rightarrow> (Inl (HTTPException 400 (Invalid_ID i)), s)
      | None \<Rightarrow>
          let job = IngestionJob_init uuid4 iid (req_ids request) (req_priority request) (clock s)
          in (Inr iid,
              s\<lparr>redis_client := redis_set (redis_key iid) (IngestionJob_to_dict job) (redis_client s),
                job_queue := pq_put (job_queue s) (get_value (priority job), job)\<rparr>))"

definition get_status :: "string \<Rightarrow> system \<Rightarrow> (HTTPException + job_data) \<times> system" where
  "get_status iid s =
     (case redis_get (redis_client s) (redis_key iid) of
        None \<Rightarrow> (Inl (HTTPException 404 Job_not_found), s)
      | Some jd \<Rightarrow> (Inr jd, s))"

definition set_status :: "IngestionJob \<Rightarrow> nat \<Rightarrow> BatchStatus \<Rightarrow> IngestionJob" where
  "set_status job k st = job\<lparr>batches := (batches job)[k := (batches job ! k)\<lparr>status := st\<rparr>]\<rparr>"

definition process_jobs_step :: "system \<Rightarrow> system" where
  "process_jobs_step s =
     (case loop_at s of
        Loop_head \<Rightarrow> s\<lparr>loop_at := Throttle_check (clock s)\<rparr>
      | Throttle_check current_time \<Rightarrow>
          if current_time - last_processed_time s < 5
          then s\<lparr>loop_at := Throttle_sleep (clock s + (5 - (current_time - last_processed_time s)))\<rparr>
          else s\<lparr>loop_at := Queue_check\<rparr>
      | Throttle_sleep until \<Rightarrow> if until \<le> clock s then s\<lparr>loop_at := Queue_check\<rparr> else s
      | Queue_check \<Rightarrow>
          (case pq_get (job_queue s) of
             Some (e, q) \<Rightarrow> s\<lparr>job_queue := q, loop_at := Batch_trigger (snd e) 0\<rparr>
           | None \<Rightarrow> s\<lparr>loop_at := Idle_sleep (clock s + 1 / 10)\<rparr>)
      | Batch_trigger job k \<Rightarrow>
          if k < length (batches job)
          then let job' = set_status job k TRIGGERED
               in s\<lparr>redis_client := update_redis_status (batches job' ! k) (redis_client s),
                    loop_at := Batch_work job' k (clock s + 1)\<rparr>
          else s\<lparr>last_processed_time := clock s, loop_at := Loop_head\<rparr>
      | Batch_work job k until \<Rightarrow>
          if until \<le> clock s
          then let job' = set_status job k COMPLETED
               in s\<lparr>redis_client := update_redis_status (batches job' ! k) (redis_client s),
                    loop_at := Batch_trigger job' (k + 1)\<rparr>
          else s
      | Idle_sleep until \<Rightarrow> if until \<le> clock s then s\<lparr>loop_at := Loop_head\<rparr> else s
      | Error_sleep until \<Rightarrow> if until \<le> clock s then s\<lparr>loop_at := Loop_head\<rparr> else s)"

text \<open>
  The \<^verbatim>\<open>except Exception\<close> branch of the loop. The calls that can raise are the store
  calls of \<^verbatim>\<open>update_redis_status\<close>: the one after a batch is set to triggered, and the
  one in \<^verbatim>\<open>process_batch\<close> after the sleep, when the batch is set to completed. When
  such a call raises the store is not written, the rest of the iteration is skipped
  (\<open>last_processed_time\<close> is not assigned), the popped job is given up, and the loop
  prints the error, sleeps 1 and starts over. Where the loop is not at a store call
  nothing is raised.
\<close>

definition process_jobs_except :: "system \<Rightarrow> system" where
  "process_jobs_except s =
     (case loop_at s of
        Batch_trigger job k \<Rightarrow>
          if k < length (batches job) then s\<lparr>loop_at := Error_sleep (clock s + 1)\<rparr> else s
      | Batch_work job k until \<Rightarrow>
          if until \<le> clock s then s\<lparr>loop_at := Error_sleep (clock s + 1)\<rparr> else s
      | _ \<Rightarrow> s)"

text \<open>
  What happens to the service: time passes, a request arrives (an ingestion comes with
  the identifiers \<^verbatim>\<open>uuid4\<close> draws for it), the loop takes its next step, or the store
  call of its next step raises.
\<close>

datatype event =
    Tick rat
  | Post_ingest IngestionRequest string "nat \<Rightarrow> string"
  | Get_status string
  | Scheduler
  | Scheduler_raises

definition step :: "event \<Rightarrow> system \<Rightarrow> system" where
  "step e s =
     (case e of
        Tick d \<Rightarrow> s\<lparr>clock := clock s + d\<rparr>
      | Post_ingest request iid uuid4 \<Rightarrow> snd (ingest_data request iid uuid4 s)
      | Get_status iid \<Rightarrow> snd (get_status iid s)
      | Scheduler \<Rightarrow> process_jobs_step s
      | Scheduler_raises \<Rightarrow> process_jobs_except s)"

fun run :: "event list \<Rightarrow> system \<Rightarrow> system" where
  "run [] s = s"
| "run (e # es) s = run es (step e s)"

text \<open>
  The environment: time does not go backwards, and the identifiers drawn for a new job
  are new (the key is not in the store, the batch identifiers are pairwise different
  and in no stored record).
\<close>

definition stored_batches :: "redis \<Rightarrow> batch_dict list" where
  "stored_batches r = concat (map (\<lambda>(key, jd). jd_batches jd) r)"

definition event_ok :: "system \<Rightarrow> event \<Rightarrow> bool" where
  "event_ok s e =
     (case e of
        Tick d \<Rightarrow> 0 \<le> d
      | Post_ingest request iid uuid4 \<Rightarrow>
          redis_key iid \<notin> set (map fst (redis_client s))
          \<and> distinct (map batch_id (create_batches uuid4 (req_ids request)))
          \<and> list_all (\<lambda>b. batch_id b \<notin> set (map bd_batch_id (stored_batches (redis_client s))))
               (create_batches uuid4 (req_ids request))
      | Get_status iid \<Rightarrow> True
      | Scheduler \<Rightarrow> True
      | Scheduler_raises \<Rightarrow> True)"

fun events_ok :: "system \<Rightarrow> event list \<Rightarrow> bool" where
  "events_ok s [] = True"
| "events_ok s (e # es) = (event_ok s e \<and> events_ok (step e s) es)"

definition store_ok :: "redis \<Rightarrow> bool" where
  "store_ok r \<longleftrightarrow>
     distinct (map fst r) \<and> list_all (\<lambda>(key, jd). prefix ''ingestion:'' key) r
     \<and> distinct (map bd_batch_id (stored_batches r))"

definition init_system :: "rat \<Rightarrow> redis \<Rightarrow> system" where
  "init_system t0 r0 =
     \<lparr>job_queue = [], last_processed_time = 0, redis_client = r0, clock = t0, loop_at = Loop_head\<rparr>"

inductive reachable :: "system \<Rightarrow> bool" where
  reachable_init: "0 \<le> t0 \<Longrightarrow> store_ok r0 \<Longrightarrow> reachable (init_system t0 r0)"
| reachable_step: "reachable s \<Longrightarrow> event_ok s e \<Longrightarrow> reachable (step e s)"

text \<open>The jobs held in memory: the one being dispatched, then those in the queue.\<close>

definition in_flight :: "pc \<Rightarrow> IngestionJob list" where
  "in_flight p = (case p of Batch_trigger job k \<Rightarrow> [job] | Batch_work job k until \<Rightarrow> [job] | _ \<Rightarrow> [])"

definition memory_jobs :: "system \<Rightarrow> IngestionJob list" where
  "memory_jobs s = in_flight (loop_at s) @ map snd (job_queue s)"

definition memory_status :: "system \<Rightarrow> string \<Rightarrow> BatchStatus option" where
  "memory_status s bid = map_of (map (\<lambda>b. (batch_id b, status b)) (concat (map batches (memory_jobs s)))) bid"

definition persisted_status :: "system \<Rightarrow> string \<Rightarrow> BatchStatus option" where
  "persisted_status s bid =
     map_of (map (\<lambda>b. (bd_batch_id b, bd_status b)) (stored_batches (redis_client s))) bid"

text \<open>One move along \<open>yet_to_start\<close>, \<open>triggered\<close>, \<open>completed\<close>, or none.\<close>

definition forward :: "BatchStatus \<Rightarrow> BatchStatus \<Rightarrow> bool" where
  "forward a b \<longleftrightarrow> a = b \<or> (a = YET_TO_START \<and> b = TRIGGERED) \<or> (a = TRIGGERED \<and> b = COMPLETED)"

section \<open>Invariants of the service\<close>

text \<open>
  What \<^verbatim>\<open>update_redis_status\<close> amounts to when batch identifiers are unique: every
  stored dictionary with the batch's identifier takes the batch's status (\<open>marked\<close>).
  \<open>synced\<close>: the record stored under a job's key lists the job's batches as they are in
  memory. \<open>statuses_ok\<close>: while the \<^verbatim>\<open>for\<close> loop is at batch \<open>k\<close>, the batches before it
  are completed, the later ones have not started, and batch \<open>k\<close> is triggered while its
  work is under way.
\<close>

definition with_status :: "Batch \<Rightarrow> batch_dict \<Rightarrow> batch_dict" where
  "with_status batch b = (if bd_batch_id b = batch_id batch then b\<lparr>bd_status := status batch\<rparr> else b)"

definition marked :: "Batch \<Rightarrow> redis \<Rightarrow> redis" where
  "marked batch r = map (\<lambda>(key, jd). (key, jd\<lparr>jd_batches := map (with_status batch) (jd_batches jd)\<rparr>)) r"

definition synced :: "redis \<Rightarrow> IngestionJob \<Rightarrow> bool" where
  "synced r job =
     (case redis_get r (redis_key (ingestion_id job)) of
        None \<Rightarrow> False
      | Some jd \<Rightarrow> jd_batches jd = map Batch_to_dict (batches job))"

definition statuses_ok :: "pc \<Rightarrow> bool" where
  "statuses_ok p =
     (case p of
        Batch_trigger job k \<Rightarrow>
          k \<le> length (batches job)
          \<and> map status (batches job) =
              replicate k COMPLETED @ replicate (length (batches job) - k) YET_TO_START
      | Batch_work job k until \<Rightarrow>
          k < length (batches job)
          \<and> map status (batches job) =
              replicate k COMPLETED @ TRIGGERED # replicate (length (batches job) - Suc k) YET_TO_START
      | _ \<Rightarrow> True)"

definition memory_batches :: "system \<Rightarrow> Batch list" where
  "memory_batches s = concat (map batches (memory_jobs s))"

definition data_inv :: "system \<Rightarrow> bool" where
  "data_inv s \<longleftrightarrow>
     store_ok (redis_client s)
     \<and> distinct (map batch_id (memory_batches s))
     \<and> list_all (synced (redis_client s)) (memory_jobs s)
     \<and> list_all (\<lambda>e. list_all (\<lambda>b. status b = YET_TO_START) (batches (snd e))) (job_queue s)
     \<and> statuses_ok (loop_at s)"

text \<open>
  \<open>moves_forward\<close> relates the batch statuses of two states; \<open>time_inv\<close> is what the
  loop knows about the clock at each of its points.
\<close>

definition moves_forward :: "system \<Rightarrow> system \<Rightarrow> bool" where
  "moves_forward s s' \<longleftrightarrow>
     (\<forall>bid a. persisted_status s bid = Some a \<longrightarrow>
        (\<exists>b. persisted_status s' bid = Some b \<and> forward a b))
     \<and> (\<forall>bid b. persisted_status s bid = None \<longrightarrow> persisted_status s' bid = Some b \<longrightarrow> b = YET_TO_START)
     \<and> (\<forall>bid a b. memory_status s bid = Some a \<longrightarrow> memory_status s' bid = Some b \<longrightarrow> forward a b)
     \<and> (\<forall>bid b. memory_status s bid = None \<longrightarrow> memory_status s' bid = Some b \<longrightarrow> b = YET_TO_START)"

definition time_inv :: "system \<Rightarrow> bool" where
  "time_inv s \<longleftrightarrow>
     last_processed_time s \<le> clock s
     \<and> (case loop_at s of
          Throttle_check current_time \<Rightarrow> current_time \<le> clock s
        | Throttle_sleep until \<Rightarrow> last_processed_time s + 5 \<le> until
        | Queue_check \<Rightarrow> last_processed_time s + 5 \<le> clock s
        | _ \<Rightarrow> True)"

text \<open>
  The derivation rule of the specification, in its words: \<open>COMPLETED\<close> iff all batches
  are \<open>COMPLETED\<close>, else \<open>TRIGGERED\<close> iff any batch is \<open>TRIGGERED\<close>, else \<open>YET_TO_START\<close>.
\<close>

definition derivation_rule :: "BatchStatus list \<Rightarrow> BatchStatus" where
  "derivation_rule statuses =
     (if list_all (\<lambda>s. s = COMPLETED) statuses then COMPLETED
      else if list_ex (\<lambda>s. s = TRIGGERED) statuses then TRIGGERED
      else YET_TO_START)"

section \<open>A run of the service\<close>

text \<open>
  One request with four identifiers arrives at clock 100 and is dispatched: the states
  when the loop is about to trigger the first batch (\<open>ex_at_trigger\<close>), while the work
  on it is under way (\<open>ex_at_work\<close>), and when both batches are through (\<open>ex_done\<close>).
\<close>

definition ex_job :: "BatchStatus \<Rightarrow> BatchStatus \<Rightarrow> IngestionJob" where
  "ex_job st0 st1 =
     \<lparr>ingestion_id = ''a'', job_ids = [1, 2, 3, 4], priority = HIGH, created_time = 100,
      batches = [\<lparr>batch_id = ''b'', ids = [1, 2, 3], status = st0\<rparr>,
                 \<lparr>batch_id = ''bb'', ids = [4], status = st1\<rparr>]\<rparr>"

definition ex_state :: "entry list \<Rightarrow> rat \<Rightarrow> BatchStatus \<Rightarrow> BatchStatus \<Rightarrow> rat \<Rightarrow> pc \<Rightarrow> system" where
  "ex_state q l st0 st1 t p =
     \<lparr>job_queue = q, last_processed_time = l,
      redis_client =
        [(''ingestion:a'',
          \<lparr>jd_ingestion_id = ''a'', jd_status = YET_TO_START,
           jd_batches = [\<lparr>bd_batch_id = ''b'', bd_ids = [1, 2, 3], bd_status = st0\<rparr>,
                         \<lparr>bd_batch_id = ''bb'', bd_ids = [4], bd_status = st1\<rparr>]\<rparr>)],
      clock = t, loop_at = p\<rparr>"

definition ex_ingest :: event where
  "ex_ingest = Post_ingest \<lparr>req_ids = [1, 2, 3, 4], req_priority = HIGH\<rparr> ''a''
     (\<lambda>n. CHR ''b'' # replicate n CHR ''b'')"

definition ex_at_trigger :: system where
  "ex_at_trigger = run [ex_ingest, Scheduler, Scheduler, Scheduler] (init_system 100 [])"

definition ex_at_work :: system where
  "ex_at_work = step Scheduler ex_at_trigger"

definition ex_done :: system where
  "ex_done = run [Scheduler, Tick 1, Scheduler] (run [Tick 1, Scheduler] ex_at_work)"

text \<open>
  A second run: two requests arrive at clock 100, the first with priority \<open>HIGH\<close>, the
  second with priority \<open>LOW\<close>. \<open>cx_end\<close> is the state at clock 101 when the work on the
  only batch of the first job is over; there the store call of \<^verbatim>\<open>process_batch\<close>
  raises. \<open>cx_start\<close> is the state in which the loop next stands at the queue check.
\<close>

definition cx_job :: "string \<Rightarrow> string \<Rightarrow> int \<Rightarrow> Priority \<Rightarrow> BatchStatus \<Rightarrow> IngestionJob" where
  "cx_job iid bid i p st =
     \<lparr>ingestion_id = iid, job_ids = [i], priority = p, created_time = 100,
      batches = [\<lparr>batch_id = bid, ids = [i], status = st\<rparr>]\<rparr>"

definition cx_record :: "string \<Rightarrow> string \<Rightarrow> int \<Rightarrow> BatchStatus \<Rightarrow> string \<times> job_data" where
  "cx_record iid bid i st =
     (''ingestion:'' @ iid,
      \<lparr>jd_ingestion_id = iid, jd_status = YET_TO_START,
       jd_batches = [\<lparr>bd_batch_id = bid, bd_ids = [i], bd_status = st\<rparr>]\<rparr>)"

definition cx_state :: "entry list \<Rightarrow> BatchStatus \<Rightarrow> rat \<Rightarrow> pc \<Rightarrow> system" where
  "cx_state q st t p =
     \<lparr>job_queue = q, last_processed_time = 0,
      redis_client = [cx_record ''a'' ''b'' 1 st, cx_record ''c'' ''d'' 2 YET_TO_START],
      clock = t, loop_at = p\<rparr>"

definition cx_end :: system where
  "cx_end =
     run [Post_ingest \<lparr>req_ids = [1], req_priority = HIGH\<rparr> ''a'' (\<lambda>n. ''b''),
          Post_ingest \<lparr>req_ids = [2], req_priority = LOW\<rparr> ''c'' (\<lambda>n. ''d''),
          Scheduler, Scheduler, Scheduler, Scheduler, Tick 1]
       (init_system 100 [])"

definition cx_start :: system where
  "cx_start = run [Scheduler_raises, Tick 1, Scheduler, Scheduler, Scheduler] cx_end"

section \<open>Batch decomposition\<close>

lemma create_batches_loop_length:
  "length (create_batches_loop uuid4 xs i acc) = length acc + (length xs - i + 2) div 3"
proof (induction uuid4 xs i acc rule: create_batches_loop.induct)
  case (1 uuid4 xs i acc)
  show ?case
  proof (cases "i < length xs")
    case True
    then have "(length xs - i + 2) div 3 = Suc ((length xs - (i + 3) + 2) div 3)"
      by presburger
    with True "1" show ?thesis
      by (simp add: create_batches_loop.simps [of uuid4 xs i acc])
  next
    case False
    then show ?thesis
      by (simp add: create_batches_loop.simps [of uuid4 xs i acc])
  qed
qed

lemma create_batches_loop_concat:
  "concat (map ids (create_batches_loop uuid4 xs i acc)) = concat (map ids acc) @ drop i xs"
proof (induction uuid4 xs i acc rule: create_batches_loop.induct)
  case (1 uuid4 xs i acc)
  show ?case
  proof (cases "i < length xs")
    case True
    have "take 3 (drop i xs) @ drop (i + 3) xs = drop i xs"
      by (metis add.commute append_take_drop_id drop_drop)
    with True "1" show ?thesis
      by (simp add: create_batches_loop.simps [of uuid4 xs i acc])
  next
    case False
    then show ?thesis
      by (simp add: create_batches_loop.simps [of uuid4 xs i acc])
  qed
qed

lemma create_batches_loop_sizes:
  "list_all (\<lambda>b. length (ids b) \<le> 3) acc \<Longrightarrow>
   list_all (\<lambda>b. length (ids b) \<le> 3) (create_batches_loop uuid4 xs i acc)"
proof (induction uuid4 xs i acc rule: create_batches_loop.induct)
  case (1 uuid4 xs i acc)
  then show ?case
    by (cases "i < length xs") (simp_all add: create_batches_loop.simps [of uuid4 xs i acc])
qed

lemma ceiling_thirds: "nat \<lceil>real n / 3\<rceil> = (n + 2) div 3"
proof -
  have "\<lceil>real n / 3\<rceil> = \<lceil>of_int (int n) / (of_int 3 :: real)\<rceil>" by simp
  also have "\<dots> = - (- int n div 3)" by (rule ceiling_divide_eq_div)
  also have "\<dots> = int ((n + 2) div 3)" by (simp add: zdiv_int)
  finally show ?thesis by simp
qed

text \<open>
  C2. Job construction on an identifier list of length \<open>n\<close> produces exactly
  \<open>ceil(n/3)\<close> batches, every batch carries at most 3 identifiers, and the batches'
  identifier lists concatenated in order are the input list. (The construction does not
  look at the values, so this holds for every list, the valid ones included.)
\<close>

theorem create_batches_partition:
  "length (batches (IngestionJob_init uuid4 iid xs p t)) = nat \<lceil>real (length xs) / 3\<rceil>
   \<and> (\<forall>b \<in> set (batches (IngestionJob_init uuid4 iid xs p t)). length (ids b) \<le> 3)
   \<and> concat (map ids (batches (IngestionJob_init uuid4 iid xs p t))) = xs"
proof -
  have "list_all (\<lambda>b. length (ids b) \<le> 3) (create_batches_loop uuid4 xs 0 [])"
    by (rule create_batches_loop_sizes) simp
  then show ?thesis
    by (simp add: IngestionJob_init_def create_batches_def create_batches_loop_length
        create_batches_loop_concat ceiling_thirds list_all_iff)
qed

theorem create_batches_partition_witness:
  "map ids (batches (IngestionJob_init (\<lambda>n. ''b'') ''a'' [1, 2, 3, 4, 5, 6, 7] HIGH 0))
     = [[1, 2, 3], [4, 5, 6], [7]]"
  using create_batches_partition [of "\<lambda>n. ''b''" "''a''" "[1, 2, 3, 4, 5, 6, 7]" HIGH 0]
  by (simp add: IngestionJob_init_def create_batches_def create_batches_loop.simps)



lemma list_ex_map_eq: "list_ex (\<lambda>s. s = c) (map f xs) \<longleftrightarrow> (\<exists>b \<in> set xs. f b = c)"
  by (induction xs) auto

lemma list_all_map_eq: "list_all (\<lambda>s. s = c) (map f xs) \<longleftrightarrow> (\<forall>b \<in> set xs. f b = c)"
  by (induction xs) auto

section \<open>Aggregate status\<close>

text \<open>
  C8. The aggregate status of a job is \<open>COMPLETED\<close> iff all of its batches are
  \<open>COMPLETED\<close>; otherwise it is \<open>TRIGGERED\<close> iff at least one batch is \<open>TRIGGERED\<close>;
  otherwise it is \<open>YET_TO_START\<close>.
\<close>

theorem get_overall_status_rule:
  "(get_overall_status j = COMPLETED \<longleftrightarrow> (\<forall>b \<in> set (batches j). status b = COMPLETED))
   \<and> (get_overall_status j = TRIGGERED \<longleftrightarrow>
        \<not> (\<forall>b \<in> set (batches j). status b = COMPLETED) \<and> (\<exists>b \<in> set (batches j). status b = TRIGGERED))
   \<and> (get_overall_status j = YET_TO_START \<longleftrightarrow>
        \<not> (\<forall>b \<in> set (batches j). status b = COMPLETED) \<and> \<not> (\<exists>b \<in> set (batches j). status b = TRIGGERED))"
  unfolding get_overall_status_def Let_def list_ex_map_eq list_all_map_eq by auto

theorem get_overall_status_rule_witness:
  "get_overall_status
     \<lparr>ingestion_id = ''j'', job_ids = [1, 2, 3, 4], priority = LOW, created_time = 0,
      batches = [\<lparr>batch_id = ''a'', ids = [1, 2, 3], status = COMPLETED\<rparr>,
                 \<lparr>batch_id = ''b'', ids = [4], status = TRIGGERED\<rparr>]\<rparr> = TRIGGERED"
  using get_overall_status_rule
    [of "\<lparr>ingestion_id = ''j'', job_ids = [1, 2, 3, 4], priority = LOW, created_time = 0,
      batches = [\<lparr>batch_id = ''a'', ids = [1, 2, 3], status = COMPLETED\<rparr>,
                 \<lparr>batch_id = ''b'', ids = [4], status = TRIGGERED\<rparr>]\<rparr>"]
  by simp

section \<open>Queue order\<close>

lemma entry_lt_negtrans: "\<not> entry_lt a b \<Longrightarrow> \<not> entry_lt b c \<Longrightarrow> \<not> entry_lt a c"
  by (auto simp: entry_lt_def IngestionJob_lt_def split: if_splits)

lemma entry_lt_trans: "entry_lt a b \<Longrightarrow> entry_lt b c \<Longrightarrow> entry_lt a c"
  by (auto simp: entry_lt_def IngestionJob_lt_def split: if_splits)

lemma entry_lt_irrefl: "\<not> entry_lt a a"
  by (simp add: entry_lt_def IngestionJob_lt_def)

lemma smallest_mem: "smallest m q \<in> set (m # q)"
  by (induction q arbitrary: m) auto

lemma smallest_least: "x \<in> set (m # q) \<Longrightarrow> \<not> entry_lt x (smallest m q)"
proof (induction q arbitrary: m x)
  case Nil
  then show ?case by (simp add: entry_lt_irrefl)
next
  case (Cons e q)
  let ?m = "if entry_lt e m then e else m"
  have keep: "\<not> entry_lt ?m (smallest ?m q)" by (rule Cons.IH) simp
  have m: "\<not> entry_lt m ?m" by (auto simp: entry_lt_irrefl dest: entry_lt_trans)
  have e: "\<not> entry_lt e ?m" by (simp add: entry_lt_irrefl)
  from Cons.prems consider "x = m" | "x = e" | "x \<in> set q" by auto
  then show ?case
  proof cases
    case 1
    with m keep show ?thesis using entry_lt_negtrans by (metis smallest.simps(2))
  next
    case 2
    with e keep show ?thesis using entry_lt_negtrans by (metis smallest.simps(2))
  next
    case 3
    then show ?thesis using Cons.IH [of x ?m] by simp
  qed
qed

lemma pq_get_is_smallest:
  assumes that: "pq_get q = Some (e, q')"
  shows "is_smallest e q \<and> q' = remove1 e q"
proof (cases q)
  case Nil
  then show ?thesis using that by (simp add: pq_get_def)
next
  case (Cons e0 q0)
  with that have e: "e = smallest e0 q0" and q': "q' = remove1 e q"
    by (auto simp: pq_get_def)
  have "e \<in> set q" unfolding e Cons by (rule smallest_mem)
  moreover have "\<forall>x \<in> set q. \<not> entry_lt x e"
    unfolding e Cons using smallest_least by blast
  ultimately show ?thesis using q' by (simp add: is_smallest_def)
qed

lemma pq_get_None: "pq_get q = None \<longleftrightarrow> q = []"
  by (simp add: pq_get_def split: list.splits)

lemma is_smallest_rank:
  assumes "is_smallest e q" and "x \<in> set q"
    and "fst e = get_value (priority (snd e))" and "fst x = get_value (priority (snd x))"
  shows "fst e < fst x \<or> (fst e = fst x \<and> created_time (snd e) \<le> created_time (snd x))"
proof -
  from assms(1,2) have "\<not> entry_lt x e" by (simp add: is_smallest_def)
  with assms(3,4) show ?thesis
    by (auto simp: entry_lt_def IngestionJob_lt_def split: if_splits)
qed

lemma pq_drain_sorted:
  "length q = n \<Longrightarrow>
   mset (pq_drain n q) = mset q \<and> sorted_wrt (\<lambda>a b. \<not> entry_lt b a) (pq_drain n q)"
proof (induction n arbitrary: q)
  case 0
  then show ?case by simp
next
  case (Suc n)
  then obtain e0 q0 where q: "q = e0 # q0" by (cases q) auto
  then obtain e q' where g: "pq_get q = Some (e, q')" by (simp add: pq_get_def)
  then have sm: "is_smallest e q" and q': "q' = remove1 e q" using pq_get_is_smallest by auto
  from sm have mem: "e \<in> set q" by (simp add: is_smallest_def)
  with Suc.prems q' have len: "length q' = n" by (simp add: length_remove1)
  from Suc.IH [OF len] have ih: "mset (pq_drain n q') = mset q'"
    "sorted_wrt (\<lambda>a b. \<not> entry_lt b a) (pq_drain n q')" by auto
  have "set (pq_drain n q') = set q'" using ih(1) by (metis set_mset_mset)
  also have "\<dots> \<subseteq> set q" using q' by (simp add: set_remove1_subset)
  finally have "\<forall>x \<in> set (pq_drain n q'). \<not> entry_lt x e" using sm by (auto simp: is_smallest_def)
  with ih g mem q' show ?case by simp
qed


lemma sorted_wrt_weaken:
  "sorted_wrt P xs \<Longrightarrow> (\<And>a b. a \<in> set xs \<Longrightarrow> b \<in> set xs \<Longrightarrow> P a b \<Longrightarrow> Q a b) \<Longrightarrow> sorted_wrt Q xs"
  by (rule sorted_wrt_mono_rel) auto

text \<open>
  C3. With the ranks \<open>HIGH = 0\<close>, \<open>MEDIUM = 1\<close>, \<open>LOW = 2\<close>: an entry the queue may hand
  out has the smallest rank of all entries, whatever the arrival order, and among the
  entries of that rank the earliest creation time; \<open>pq_get\<close> hands out such an entry and
  leaves every other entry in the queue, in place; emptying the queue returns every
  entry once, by rank and then by creation time.
\<close>

theorem priority_queue_order:
  assumes wf: "\<forall>x \<in> set q. fst x = get_value (priority (snd x))"
  shows "get_value HIGH = 0 \<and> get_value MEDIUM = 1 \<and> get_value LOW = 2
     \<and> (\<forall>e x. is_smallest e q \<longrightarrow> x \<in> set q \<longrightarrow>
            get_value (priority (snd e)) < get_value (priority (snd x))
            \<or> (get_value (priority (snd e)) = get_value (priority (snd x))
                \<and> created_time (snd e) \<le> created_time (snd x)))
     \<and> (\<forall>e q'. pq_get q = Some (e, q') \<longrightarrow> is_smallest e q \<and> q' = remove1 e q)
     \<and> (pq_get q = None \<longleftrightarrow> q = [])
     \<and> mset (pq_drain (length q) q) = mset q
     \<and> sorted_wrt (\<lambda>a b. get_value (priority a) < get_value (priority b)
            \<or> (get_value (priority a) = get_value (priority b) \<and> created_time a \<le> created_time b))
          (map snd (pq_drain (length q) q))"
proof -
  have rank: "get_value (priority (snd e)) < get_value (priority (snd x))
            \<or> (get_value (priority (snd e)) = get_value (priority (snd x))
                \<and> created_time (snd e) \<le> created_time (snd x))"
    if "is_smallest e q" "x \<in> set q" for e x
  proof -
    from that have "e \<in> set q" by (simp add: is_smallest_def)
    with is_smallest_rank [OF that] wf that(2) show ?thesis by simp
  qed
  have drain: "mset (pq_drain (length q) q) = mset q"
    "sorted_wrt (\<lambda>a b. \<not> entry_lt b a) (pq_drain (length q) q)"
    using pq_drain_sorted [of q "length q"] by auto
  have mem: "set (pq_drain (length q) q) = set q"
    using drain(1) by (metis set_mset_mset)
  have "sorted_wrt (\<lambda>a b. get_value (priority (snd a)) < get_value (priority (snd b))
            \<or> (get_value (priority (snd a)) = get_value (priority (snd b))
                \<and> created_time (snd a) \<le> created_time (snd b)))
          (pq_drain (length q) q)"
  proof (rule sorted_wrt_weaken [OF drain(2)])
    fix a b
    assume "a \<in> set (pq_drain (length q) q)" "b \<in> set (pq_drain (length q) q)" "\<not> entry_lt b a"
    with mem wf have "fst a = get_value (priority (snd a))" "fst b = get_value (priority (snd b))"
      "\<not> entry_lt b a" by auto
    then show "get_value (priority (snd a)) < get_value (priority (snd b))
            \<or> (get_value (priority (snd a)) = get_value (priority (snd b))
                \<and> created_time (snd a) \<le> created_time (snd b))"
      by (auto simp: entry_lt_def IngestionJob_lt_def split: if_splits)
  qed
  then have sorted: "sorted_wrt (\<lambda>a b. get_value (priority a) < get_value (priority b)
            \<or> (get_value (priority a) = get_value (priority b) \<and> created_time a \<le> created_time b))
          (map snd (pq_drain (length q) q))"
    by (simp add: sorted_wrt_map)
  show ?thesis
    using rank drain(1) sorted pq_get_is_smallest [of q] pq_get_None [of q] by simp
qed

theorem priority_queue_order_witness:
  "pq_drain 3
     [(2, \<lparr>ingestion_id = ''J1'', job_ids = [1], priority = LOW, created_time = 0, batches = []\<rparr>),
      (0, \<lparr>ingestion_id = ''J2'', job_ids = [2], priority = HIGH, created_time = 1, batches = []\<rparr>),
      (1, \<lparr>ingestion_id = ''J3'', job_ids = [3], priority = MEDIUM, created_time = 2, batches = []\<rparr>)]
   = [(0, \<lparr>ingestion_id = ''J2'', job_ids = [2], priority = HIGH, created_time = 1, batches = []\<rparr>),
      (1, \<lparr>ingestion_id = ''J3'', job_ids = [3], priority = MEDIUM, created_time = 2, batches = []\<rparr>),
      (2, \<lparr>ingestion_id = ''J1'', job_ids = [1], priority = LOW, created_time = 0, batches = []\<rparr>)]
   \<and> sorted_wrt (\<lambda>a b. get_value (priority a) < get_value (priority b)
            \<or> (get_value (priority a) = get_value (priority b) \<and> created_time a \<le> created_time b))
        (map snd (pq_drain 3
     [(2, \<lparr>ingestion_id = ''J1'', job_ids = [1], priority = LOW, created_time = 0, batches = []\<rparr>),
      (0, \<lparr>ingestion_id = ''J2'', job_ids = [2], priority = HIGH, created_time = 1, batches = []\<rparr>),
      (1, \<lparr>ingestion_id = ''J3'', job_ids = [3], priority = MEDIUM, created_time = 2, batches = []\<rparr>)]))"
  using priority_queue_order
    [of "[(2, \<lparr>ingestion_id = ''J1'', job_ids = [1], priority = LOW, created_time = 0, batches = []\<rparr>),
      (0, \<lparr>ingestion_id = ''J2'', job_ids = [2], priority = HIGH, created_time = 1, batches = []\<rparr>),
      (1, \<lparr>ingestion_id = ''J3'', job_ids = [3], priority = MEDIUM, created_time = 2, batches = []\<rparr>)]"]
  by (simp add: eval_nat_numeral pq_get_def entry_lt_def IngestionJob_lt_def)

section \<open>Ingestion and status requests\<close>

lemma find_first_filter: "find P xs = (case filter P xs of [] \<Rightarrow> None | x # _ \<Rightarrow> Some x)"
  by (induction xs) auto

text \<open>
  C7. When some identifier of the request is outside \<open>[1, 10^9 + 7]\<close>, ingestion fails
  with status 400 naming the first such identifier and leaves the whole state as it
  was (no record written, nothing enqueued); when every identifier is in the range,
  bounds included, it returns the ingestion identifier.
\<close>

theorem ingest_data_validation:
  "((\<exists>i \<in> set (req_ids request). \<not> valid_id i) \<longrightarrow>
      ingest_data request iid uuid4 s =
        (Inl (HTTPException 400 (Invalid_ID (hd (filter (\<lambda>i. \<not> valid_id i) (req_ids request))))), s))
   \<and> ((\<forall>i \<in> set (req_ids request). valid_id i) \<longrightarrow> fst (ingest_data request iid uuid4 s) = Inr iid)
   \<and> (valid_id i \<longleftrightarrow> 1 \<le> i \<and> i \<le> 1000000007)"
proof -
  have "filter (\<lambda>i. \<not> valid_id i) (req_ids request) \<noteq> []"
    if "\<exists>i \<in> set (req_ids request). \<not> valid_id i"
    using that by (simp add: filter_empty_conv)
  moreover have "filter (\<lambda>i. \<not> valid_id i) (req_ids request) = []"
    if "\<forall>i \<in> set (req_ids request). valid_id i"
    using that by (simp add: filter_empty_conv)
  ultimately show ?thesis
    by (auto simp: ingest_data_def find_first_filter valid_id_def Let_def split: list.splits)
qed

theorem ingest_data_validation_witness:
  "ingest_data \<lparr>req_ids = [5, 0, 1000000008], req_priority = HIGH\<rparr> ''a'' (\<lambda>n. ''b'') (init_system 0 [])
     = (Inl (HTTPException 400 (Invalid_ID 0)), init_system 0 [])
   \<and> fst (ingest_data \<lparr>req_ids = [1, 1000000007], req_priority = HIGH\<rparr> ''a'' (\<lambda>n. ''b'') (init_system 0 []))
     = Inr ''a''"
  using ingest_data_validation [of "\<lparr>req_ids = [5, 0, 1000000008], req_priority = HIGH\<rparr>" "''a''" "\<lambda>n. ''b''" "init_system 0 []" 0]
    ingest_data_validation [of "\<lparr>req_ids = [1, 1000000007], req_priority = HIGH\<rparr>" "''a''" "\<lambda>n. ''b''" "init_system 0 []" 0]
  by (simp add: valid_id_def)

text \<open>
  C9. The status query returns the stored record as it is when there is one under the
  identifier's key, fails with status 404 exactly when there is none, and leaves the
  state unchanged.
\<close>

theorem get_status_verbatim:
  "(\<forall>jd. redis_get (redis_client s) (redis_key iid) = Some jd \<longrightarrow> get_status iid s = (Inr jd, s))
   \<and> (redis_get (redis_client s) (redis_key iid) = None \<longleftrightarrow>
        get_status iid s = (Inl (HTTPException 404 Job_not_found), s))
   \<and> snd (get_status iid s) = s"
  by (auto simp: get_status_def split: option.splits)

theorem get_status_verbatim_witness:
  "get_status ''a'' (init_system 0 [(''ingestion:a'', \<lparr>jd_ingestion_id = ''a'', jd_status = YET_TO_START, jd_batches = []\<rparr>)])
     = (Inr \<lparr>jd_ingestion_id = ''a'', jd_status = YET_TO_START, jd_batches = []\<rparr>,
        init_system 0 [(''ingestion:a'', \<lparr>jd_ingestion_id = ''a'', jd_status = YET_TO_START, jd_batches = []\<rparr>)])
   \<and> get_status ''b'' (init_system 0 [(''ingestion:a'', \<lparr>jd_ingestion_id = ''a'', jd_status = YET_TO_START, jd_batches = []\<rparr>)])
     = (Inl (HTTPException 404 Job_not_found),
        init_system 0 [(''ingestion:a'', \<lparr>jd_ingestion_id = ''a'', jd_status = YET_TO_START, jd_batches = []\<rparr>)])"
  using get_status_verbatim [of "init_system 0 [(''ingestion:a'', \<lparr>jd_ingestion_id = ''a'', jd_status = YET_TO_START, jd_batches = []\<rparr>)]" "''a''"]
    get_status_verbatim [of "init_system 0 [(''ingestion:a'', \<lparr>jd_ingestion_id = ''a'', jd_status = YET_TO_START, jd_batches = []\<rparr>)]" "''b''"]
  by (simp add: redis_get_def redis_key_def init_system_def)

section \<open>The store under status updates\<close>

lemma with_status_hit:
  "bd_batch_id b = batch_id batch \<Longrightarrow> with_status batch b = b\<lparr>bd_status := status batch\<rparr>"
  by (simp add: with_status_def)

lemma with_status_miss: "bd_batch_id b \<noteq> batch_id batch \<Longrightarrow> with_status batch b = b"
  by (simp add: with_status_def)

lemma marked_Nil [simp]: "marked batch [] = []"
  by (simp add: marked_def)

lemma marked_Cons [simp]:
  "marked batch ((key, jd) # r) =
     (key, jd\<lparr>jd_batches := map (with_status batch) (jd_batches jd)\<rparr>) # marked batch r"
  by (simp add: marked_def)

lemma set_batch_status_None:
  "set_batch_status bs batch = None \<longleftrightarrow> batch_id batch \<notin> bd_batch_id ` set bs"
  by (induction bs) auto

lemma with_status_absent:
  "batch_id batch \<notin> bd_batch_id ` set bs \<Longrightarrow> map (with_status batch) bs = bs"
  by (induction bs) (auto simp: with_status_miss)

lemma set_batch_status_Some:
  "distinct (map bd_batch_id bs) \<Longrightarrow> set_batch_status bs batch = Some bs' \<Longrightarrow>
   bs' = map (with_status batch) bs"
proof (induction bs arbitrary: bs')
  case Nil
  then show ?case by simp
next
  case (Cons b bs)
  show ?case
  proof (cases "bd_batch_id b = batch_id batch")
    case True
    with Cons.prems have "batch_id batch \<notin> bd_batch_id ` set bs" by auto
    then have "map (with_status batch) bs = bs" by (rule with_status_absent)
    with True Cons.prems show ?thesis by (auto simp: with_status_hit)
  next
    case False
    with Cons.prems obtain bs0 where "set_batch_status bs batch = Some bs0" "bs' = b # bs0"
      by auto
    with Cons.IH [of bs0] Cons.prems(1) False show ?thesis by (simp add: with_status_miss)
  qed
qed

lemma stored_batches_Cons [simp]:
  "stored_batches ((key, jd) # r) = jd_batches jd @ stored_batches r"
  by (simp add: stored_batches_def)

lemma stored_batches_Nil [simp]: "stored_batches [] = []"
  by (simp add: stored_batches_def)

lemma stored_batches_append [simp]:
  "stored_batches (r @ r') = stored_batches r @ stored_batches r'"
  by (simp add: stored_batches_def)

lemma marked_absent:
  "batch_id batch \<notin> bd_batch_id ` set (stored_batches r) \<Longrightarrow> marked batch r = r"
  by (induction r) (auto simp: with_status_absent image_Un)

lemma update_fresh: "key \<notin> fst ` set r \<Longrightarrow> AList.update key v (r @ (key, v0) # r') = r @ (key, v) # r'"
  by (induction r) auto

lemma update_redis_scan_marked:
  "distinct (map fst (pre @ rest)) \<Longrightarrow> distinct (map bd_batch_id (stored_batches (pre @ rest))) \<Longrightarrow>
   batch_id batch \<notin> bd_batch_id ` set (stored_batches pre) \<Longrightarrow>
   update_redis_scan rest batch (pre @ rest) = pre @ marked batch rest"
proof (induction rest arbitrary: pre)
  case Nil
  then show ?case by simp
next
  case (Cons kv rest)
  obtain key jd where kv: "kv = (key, jd)" by (cases kv)
  show ?case
  proof (cases "set_batch_status (jd_batches jd) batch")
    case None
    then have absent: "batch_id batch \<notin> bd_batch_id ` set (jd_batches jd)"
      by (simp add: set_batch_status_None)
    have "update_redis_scan rest batch ((pre @ [kv]) @ rest) = (pre @ [kv]) @ marked batch rest"
      using Cons.prems absent by (intro Cons.IH) (auto simp: kv image_Un)
    moreover have "marked batch (kv # rest) = kv # marked batch rest"
      using absent by (simp add: kv with_status_absent)
    ultimately show ?thesis using None by (simp add: kv)
  next
    case (Some bs)
    from Cons.prems(2) have d: "distinct (map bd_batch_id (jd_batches jd))"
      and "bd_batch_id ` set (jd_batches jd) \<inter> bd_batch_id ` set (stored_batches rest) = {}"
      by (auto simp: kv)
    moreover from Some have "batch_id batch \<in> bd_batch_id ` set (jd_batches jd)"
      using set_batch_status_None [of "jd_batches jd" batch] by auto
    ultimately have "batch_id batch \<notin> bd_batch_id ` set (stored_batches rest)" by auto
    then have rest: "marked batch rest = rest" by (rule marked_absent)
    have bs: "bs = map (with_status batch) (jd_batches jd)"
      using d Some by (rule set_batch_status_Some)
    have "key \<notin> fst ` set pre" using Cons.prems(1) by (auto simp: kv)
    then show ?thesis using Some rest bs
      by (simp add: kv redis_set_def update_fresh)
  qed
qed

lemma update_redis_status_marked:
  assumes "store_ok r"
  shows "update_redis_status batch r = marked batch r"
proof -
  from assms have "filter (\<lambda>(key, jd). prefix ''ingestion:'' key) r = r"
    by (simp add: store_ok_def list_all_iff)
  then show ?thesis
    using update_redis_scan_marked [of "[]" r batch] assms
    by (simp add: update_redis_status_def store_ok_def)
qed

lemma marked_keys [simp]: "map fst (marked batch r) = map fst r"
  by (induction r) auto

lemma with_status_id [simp]: "bd_batch_id (with_status batch b) = bd_batch_id b"
  by (simp add: with_status_def)

lemma marked_stored_batches:
  "stored_batches (marked batch r) = map (with_status batch) (stored_batches r)"
  by (induction r) auto

lemma marked_store_ok: "store_ok r \<Longrightarrow> store_ok (marked batch r)"
proof -
  assume ok: "store_ok r"
  have "list_all (\<lambda>(key, jd). prefix ''ingestion:'' key) (marked batch r) =
        list_all (\<lambda>(key, jd). prefix ''ingestion:'' key) r"
    by (induction r) auto
  with ok show ?thesis
    by (simp add: store_ok_def marked_stored_batches comp_def)
qed

lemma marked_get:
  "map_of (marked batch r) key =
   map_option (\<lambda>jd. jd\<lparr>jd_batches := map (with_status batch) (jd_batches jd)\<rparr>) (map_of r key)"
  by (induction r) auto

lemma with_status_lookup:
  "map_of (map (\<lambda>b. (bd_batch_id b, bd_status b)) (map (with_status batch) bs)) bid =
   (if bid = batch_id batch
    then map_option (\<lambda>_. status batch) (map_of (map (\<lambda>b. (bd_batch_id b, bd_status b)) bs) bid)
    else map_of (map (\<lambda>b. (bd_batch_id b, bd_status b)) bs) bid)"
  by (induction bs) (auto simp: with_status_def)

section \<open>Records and memory stay in step\<close>

lemma create_batches_loop_fresh:
  "list_all (\<lambda>b. status b = YET_TO_START) acc \<Longrightarrow>
   list_all (\<lambda>b. status b = YET_TO_START) (create_batches_loop uuid4 xs i acc)"
proof (induction uuid4 xs i acc rule: create_batches_loop.induct)
  case (1 uuid4 xs i acc)
  then show ?case
    by (cases "i < length xs") (simp_all add: create_batches_loop.simps [of uuid4 xs i acc])
qed

lemma create_batches_fresh: "list_all (\<lambda>b. status b = YET_TO_START) (create_batches uuid4 xs)"
  unfolding create_batches_def by (rule create_batches_loop_fresh) simp

lemma update_append: "key \<notin> fst ` set r \<Longrightarrow> AList.update key v r = r @ [(key, v)]"
  by (induction r) auto

lemma stored_mem: "(key, jd) \<in> set r \<Longrightarrow> set (jd_batches jd) \<subseteq> set (stored_batches r)"
  by (induction r) auto

lemma synced_ids:
  assumes "synced r job"
  shows "batch_id ` set (batches job) \<subseteq> bd_batch_id ` set (stored_batches r)"
proof -
  from assms obtain jd where jd: "map_of r (redis_key (ingestion_id job)) = Some jd"
    and eq: "jd_batches jd = map Batch_to_dict (batches job)"
    by (auto simp: synced_def redis_get_def split: option.splits)
  from jd have "(redis_key (ingestion_id job), jd) \<in> set r" by (rule map_of_SomeD)
  then have "set (jd_batches jd) \<subseteq> set (stored_batches r)" by (rule stored_mem)
  moreover have "batch_id ` set (batches job) = bd_batch_id ` set (jd_batches jd)"
    by (simp add: eq image_image Batch_to_dict_def)
  ultimately show ?thesis by auto
qed

lemma to_dict_update:
  assumes "distinct (map batch_id bs)" and "k < length bs"
  shows "map (with_status ((bs ! k)\<lparr>status := st\<rparr>)) (map Batch_to_dict bs) =
         map Batch_to_dict (bs[k := (bs ! k)\<lparr>status := st\<rparr>])"
proof (rule nth_equalityI)
  show "length (map (with_status ((bs ! k)\<lparr>status := st\<rparr>)) (map Batch_to_dict bs)) =
        length (map Batch_to_dict (bs[k := (bs ! k)\<lparr>status := st\<rparr>]))"
    by simp
next
  fix i
  assume "i < length (map (with_status ((bs ! k)\<lparr>status := st\<rparr>)) (map Batch_to_dict bs))"
  then have i: "i < length bs" by simp
  show "map (with_status ((bs ! k)\<lparr>status := st\<rparr>)) (map Batch_to_dict bs) ! i =
        map Batch_to_dict (bs[k := (bs ! k)\<lparr>status := st\<rparr>]) ! i"
  proof (cases "i = k")
    case True
    with i show ?thesis by (simp add: with_status_def Batch_to_dict_def)
  next
    case False
    with assms i have "batch_id (bs ! i) \<noteq> batch_id (bs ! k)"
      by (metis distinct_conv_nth length_map nth_map)
    with i False show ?thesis by (simp add: with_status_def Batch_to_dict_def)
  qed
qed

lemma to_dict_untouched:
  assumes "batch_id batch \<notin> batch_id ` set bs"
  shows "map (with_status batch) (map Batch_to_dict bs) = map Batch_to_dict bs"
proof (rule with_status_absent)
  show "batch_id batch \<notin> bd_batch_id ` set (map Batch_to_dict bs)"
    using assms by (simp add: image_image Batch_to_dict_def)
qed

lemma set_status_ids [simp]: "map batch_id (batches (set_status job k st)) = map batch_id (batches job)"
  by (simp add: set_status_def map_update) (metis list_update_id map_update)

lemma set_status_statuses:
  "k < length (batches job) \<Longrightarrow>
   map status (batches (set_status job k st)) = (map status (batches job))[k := st]"
  by (simp add: set_status_def map_update)

lemma set_status_length [simp]: "length (batches (set_status job k st)) = length (batches job)"
  by (simp add: set_status_def)

lemma set_status_iid [simp]: "ingestion_id (set_status job k st) = ingestion_id job"
  by (simp add: set_status_def)

lemma set_status_nth:
  "k < length (batches job) \<Longrightarrow> batches (set_status job k st) ! k = (batches job ! k)\<lparr>status := st\<rparr>"
  by (simp add: set_status_def)

lemma synced_set_status:
  assumes ok: "store_ok r" and sy: "synced r job"
    and d: "distinct (map batch_id (batches job))" and k: "k < length (batches job)"
  shows "synced (update_redis_status (batches (set_status job k st) ! k) r) (set_status job k st)"
proof -
  from sy obtain jd where jd: "map_of r (redis_key (ingestion_id job)) = Some jd"
    and eq: "jd_batches jd = map Batch_to_dict (batches job)"
    by (auto simp: synced_def redis_get_def split: option.splits)
  show ?thesis
    using jd eq to_dict_update [OF d k, of st] k
    by (simp add: update_redis_status_marked [OF ok] synced_def redis_get_def marked_get
        set_status_nth) (simp add: set_status_def)
qed

lemma synced_other:
  assumes ok: "store_ok r" and sy: "synced r job"
    and d: "batch_id batch \<notin> batch_id ` set (batches job)"
  shows "synced (update_redis_status batch r) job"
proof -
  from sy obtain jd where jd: "map_of r (redis_key (ingestion_id job)) = Some jd"
    and eq: "jd_batches jd = map Batch_to_dict (batches job)"
    by (auto simp: synced_def redis_get_def split: option.splits)
  show ?thesis
    using jd eq to_dict_untouched [OF d]
    by (simp add: update_redis_status_marked [OF ok] synced_def redis_get_def marked_get)
qed

lemma map_of_append_old: "map_of r key = Some v \<Longrightarrow> map_of (r @ r') key = Some v"
  by (simp add: map_add_Some_iff)

lemma map_of_append_new: "key \<notin> fst ` set r \<Longrightarrow> map_of (r @ [(key, v)]) key = Some v"
  by (simp add: map_add_Some_iff map_of_eq_None_iff)

lemma synced_append: "synced r job \<Longrightarrow> synced (r @ r') job"
  by (auto simp: synced_def redis_get_def map_of_append_old split: option.splits)

lemma ingest_data_accept:
  assumes "find (\<lambda>i. \<not> valid_id i) (req_ids request) = None"
    and "redis_key iid \<notin> fst ` set (redis_client s)"
  shows "snd (ingest_data request iid uuid4 s) =
     s\<lparr>redis_client := redis_client s @
          [(redis_key iid,
            IngestionJob_to_dict (IngestionJob_init uuid4 iid (req_ids request) (req_priority request) (clock s)))],
       job_queue := job_queue s @
          [(get_value (req_priority request),
            IngestionJob_init uuid4 iid (req_ids request) (req_priority request) (clock s))]\<rparr>"
  using assms
  by (simp add: ingest_data_def Let_def redis_set_def update_append pq_put_def IngestionJob_init_def)

lemma ingest_data_reject:
  "find (\<lambda>i. \<not> valid_id i) (req_ids request) = Some i \<Longrightarrow> snd (ingest_data request iid uuid4 s) = s"
  by (simp add: ingest_data_def)

lemma data_inv_ingest:
  assumes inv: "data_inv s" and ok: "event_ok s (Post_ingest request iid uuid4)"
  shows "data_inv (step (Post_ingest request iid uuid4) s)"
proof (cases "find (\<lambda>i. \<not> valid_id i) (req_ids request)")
  case (Some i)
  with inv show ?thesis by (simp add: step_def ingest_data_reject)
next
  case None
  define job where "job = IngestionJob_init uuid4 iid (req_ids request) (req_priority request) (clock s)"
  define r where "r = redis_client s"
  have bs: "batches job = create_batches uuid4 (req_ids request)"
    and iid: "ingestion_id job = iid"
    by (simp_all add: job_def IngestionJob_init_def)
  from ok have key: "redis_key iid \<notin> fst ` set r"
    and dist: "distinct (map batch_id (batches job))"
    and new: "\<forall>b \<in> set (batches job). batch_id b \<notin> bd_batch_id ` set (stored_batches r)"
    by (simp_all add: event_ok_def bs r_def list_all_iff)
  define s1 where "s1 = step (Post_ingest request iid uuid4) s"
  have s': "s1 =
      s\<lparr>redis_client := r @ [(redis_key iid, IngestionJob_to_dict job)],
        job_queue := job_queue s @ [(get_value (req_priority request), job)]\<rparr>"
    using ingest_data_accept [OF None, of iid s uuid4] key
    by (simp add: s1_def step_def job_def r_def)
  have fields: "redis_client s1 = r @ [(redis_key iid, IngestionJob_to_dict job)]"
    "job_queue s1 = job_queue s @ [(get_value (req_priority request), job)]"
    "loop_at s1 = loop_at s"
    by (simp_all add: s')
  from inv have store: "store_ok r"
    and mdist: "distinct (map batch_id (memory_batches s))"
    and sync: "list_all (synced r) (memory_jobs s)"
    and fresh: "list_all (\<lambda>e. list_all (\<lambda>b. status b = YET_TO_START) (batches (snd e))) (job_queue s)"
    and pc: "statuses_ok (loop_at s)"
    by (simp_all add: data_inv_def r_def)
  have dict_ids: "map bd_batch_id (jd_batches (IngestionJob_to_dict job)) = map batch_id (batches job)"
    by (simp add: IngestionJob_to_dict_def Batch_to_dict_def comp_def)
  have disj: "bd_batch_id ` set (stored_batches r) \<inter> batch_id ` set (batches job) = {}"
  proof -
    have False if "x \<in> set (stored_batches r)" "b \<in> set (batches job)" "bd_batch_id x = batch_id b" for x b
      using new that by (metis imageI)
    then show ?thesis by (auto simp: image_iff)
  qed
  have "bd_batch_id ` set (jd_batches (IngestionJob_to_dict job)) = batch_id ` set (batches job)"
    using dict_ids by (metis set_map)
  with disj have disj': "bd_batch_id ` set (stored_batches r) \<inter>
      bd_batch_id ` set (jd_batches (IngestionJob_to_dict job)) = {}"
    by simp
  have "prefix ''ingestion:'' (redis_key iid)"
    by (simp add: redis_key_def)
  then have "store_ok (r @ [(redis_key iid, IngestionJob_to_dict job)])"
    using store key dist dict_ids disj disj'
    by (simp add: store_ok_def)
  moreover have mem: "memory_jobs s1 = memory_jobs s @ [job]"
    by (simp add: fields memory_jobs_def)
  have old: "batch_id ` set (memory_batches s) \<subseteq> bd_batch_id ` set (stored_batches r)"
    using sync synced_ids by (fastforce simp: memory_batches_def list_all_iff)
  have "batch_id ` set (memory_batches s) \<inter> batch_id ` set (batches job) = {}"
    using disj old by blast
  then have "distinct (map batch_id (memory_batches s @ batches job))"
    using mdist dist by simp
  moreover have "list_all (synced (r @ [(redis_key iid, IngestionJob_to_dict job)])) (memory_jobs s)"
    using sync by (simp add: list_all_iff synced_append)
  moreover have "synced (r @ [(redis_key iid, IngestionJob_to_dict job)]) job"
    using map_of_append_new [OF key, of "IngestionJob_to_dict job"]
    by (simp add: synced_def redis_get_def iid IngestionJob_to_dict_def del: map_of_append)
  moreover have "list_all (\<lambda>b. status b = YET_TO_START) (batches job)"
    by (simp add: bs create_batches_fresh)
  ultimately have "data_inv s1"
    using fresh pc by (simp add: data_inv_def fields mem memory_batches_def)
  then show ?thesis by (simp add: s1_def)
qed

lemma replicate_trigger:
  "k < n \<Longrightarrow> (replicate k a @ replicate (n - k) b)[k := c] = replicate k a @ c # replicate (n - Suc k) b"
proof -
  assume "k < n"
  then have "replicate (n - k) b = b # replicate (n - Suc k) b"
    by (metis Suc_diff_Suc replicate_Suc)
  then show ?thesis by (simp add: list_update_append)
qed

lemma replicate_complete:
  "(replicate k a @ c # replicate (n - Suc k) b)[k := a] = replicate (Suc k) a @ replicate (n - Suc k) b"
  by (simp add: list_update_append replicate_append_same)

lemma all_fresh_replicate:
  "list_all (\<lambda>b. status b = YET_TO_START) bs \<Longrightarrow> map status bs = replicate (length bs) YET_TO_START"
  by (induction bs) auto

lemma mset_concat_remove1:
  "e \<in> set q \<Longrightarrow> mset (f e @ concat (map f (remove1 e q))) = mset (concat (map f q))"
  by (induction q) (auto simp: ac_simps)

lemma distinct_pop:
  assumes "e \<in> set q" and "distinct (map g (concat (map f q)))"
  shows "distinct (map g (f e @ concat (map f (remove1 e q))))"
proof -
  have "mset (map g (f e @ concat (map f (remove1 e q)))) = mset (map g (concat (map f q)))"
    using mset_concat_remove1 [OF assms(1), of f] by (metis mset_map)
  then show ?thesis using assms(2) by (metis mset_eq_imp_distinct_iff)
qed

lemma list_all_remove1: "list_all P q \<Longrightarrow> list_all P (remove1 e q)"
  by (metis list_all_iff notin_set_remove1)

lemma set_status_keeps:
  assumes ok: "store_ok r"
    and dist: "distinct (map batch_id (batches job @ concat (map batches js)))"
    and sy: "synced r job" and sys: "list_all (synced r) js"
    and k: "k < length (batches job)"
  shows "store_ok (update_redis_status (batches (set_status job k st) ! k) r)"
    and "synced (update_redis_status (batches (set_status job k st) ! k) r) (set_status job k st)"
    and "list_all (synced (update_redis_status (batches (set_status job k st) ! k) r)) js"
proof -
  let ?b = "batches (set_status job k st) ! k"
  show "store_ok (update_redis_status ?b r)"
    using ok by (simp add: update_redis_status_marked marked_store_ok)
  from dist have d: "distinct (map batch_id (batches job))" by simp
  show "synced (update_redis_status ?b r) (set_status job k st)"
    using ok sy d k by (rule synced_set_status)
  have id: "batch_id ?b = batch_id (batches job ! k)"
    using k by (simp add: set_status_nth)
  have mem: "batch_id (batches job ! k) \<in> batch_id ` set (batches job)"
    using k by simp
  show "list_all (synced (update_redis_status ?b r)) js"
    unfolding list_all_iff
  proof
    fix j
    assume j: "j \<in> set js"
    with sys have "synced r j" by (simp add: list_all_iff)
    moreover have "batch_id ` set (batches job) \<inter> batch_id ` set (batches j) = {}"
      using dist j by auto
    with mem id have "batch_id ?b \<notin> batch_id ` set (batches j)" by auto
    ultimately show "synced (update_redis_status ?b r) j"
      using ok by (intro synced_other)
  qed
qed

lemma data_inv_trigger:
  assumes inv: "data_inv s" and pc: "loop_at s = Batch_trigger job k" and k: "k < length (batches job)"
  shows "data_inv (process_jobs_step s)"
proof -
  define s1 where "s1 = process_jobs_step s"
  define job' where "job' = set_status job k TRIGGERED"
  have fields: "redis_client s1 = update_redis_status (batches job' ! k) (redis_client s)"
    "job_queue s1 = job_queue s" "loop_at s1 = Batch_work job' k (clock s + 1)"
    using pc k by (simp_all add: s1_def job'_def process_jobs_step_def Let_def)
  have mem: "memory_jobs s = job # map snd (job_queue s)"
    "memory_jobs s1 = job' # map snd (job_queue s)"
    by (simp_all add: memory_jobs_def in_flight_def pc fields)
  from inv have ok: "store_ok (redis_client s)"
    and dist: "distinct (map batch_id (batches job @ concat (map batches (map snd (job_queue s)))))"
    and sy: "synced (redis_client s) job"
    and sys: "list_all (synced (redis_client s)) (map snd (job_queue s))"
    and fresh: "list_all (\<lambda>e. list_all (\<lambda>b. status b = YET_TO_START) (batches (snd e))) (job_queue s)"
    and st: "map status (batches job) =
        replicate k COMPLETED @ replicate (length (batches job) - k) YET_TO_START"
    by (simp_all add: data_inv_def mem memory_batches_def statuses_ok_def pc)
  note keep = set_status_keeps [OF ok dist sy sys k, of TRIGGERED, folded job'_def]
  have "map batch_id (memory_batches s1) = map batch_id (memory_batches s)"
    by (simp add: memory_batches_def mem job'_def)
  moreover have "map status (batches job') =
      replicate k COMPLETED @ TRIGGERED # replicate (length (batches job) - Suc k) YET_TO_START"
    using k st by (simp add: job'_def set_status_statuses replicate_trigger)
  ultimately have "data_inv s1"
    using keep fresh k inv
    by (simp add: data_inv_def fields mem statuses_ok_def job'_def)
  then show ?thesis by (simp add: s1_def)
qed

lemma data_inv_work:
  assumes inv: "data_inv s" and pc: "loop_at s = Batch_work job k until" and wake: "until \<le> clock s"
  shows "data_inv (process_jobs_step s)"
proof -
  define s1 where "s1 = process_jobs_step s"
  define job' where "job' = set_status job k COMPLETED"
  have fields: "redis_client s1 = update_redis_status (batches job' ! k) (redis_client s)"
    "job_queue s1 = job_queue s" "loop_at s1 = Batch_trigger job' (k + 1)"
    using pc wake by (simp_all add: s1_def job'_def process_jobs_step_def Let_def)
  have mem: "memory_jobs s = job # map snd (job_queue s)"
    "memory_jobs s1 = job' # map snd (job_queue s)"
    by (simp_all add: memory_jobs_def in_flight_def pc fields)
  from inv have ok: "store_ok (redis_client s)"
    and dist: "distinct (map batch_id (batches job @ concat (map batches (map snd (job_queue s)))))"
    and sy: "synced (redis_client s) job"
    and sys: "list_all (synced (redis_client s)) (map snd (job_queue s))"
    and fresh: "list_all (\<lambda>e. list_all (\<lambda>b. status b = YET_TO_START) (batches (snd e))) (job_queue s)"
    and k: "k < length (batches job)"
    and st: "map status (batches job) =
        replicate k COMPLETED @ TRIGGERED # replicate (length (batches job) - Suc k) YET_TO_START"
    by (simp_all add: data_inv_def mem memory_batches_def statuses_ok_def pc)
  note keep = set_status_keeps [OF ok dist sy sys k, of COMPLETED, folded job'_def]
  have "map batch_id (memory_batches s1) = map batch_id (memory_batches s)"
    by (simp add: memory_batches_def mem job'_def)
  moreover have "map status (batches job') =
      replicate (Suc k) COMPLETED @ replicate (length (batches job) - Suc k) YET_TO_START"
    using k st replicate_complete [of k COMPLETED TRIGGERED "length (batches job)" YET_TO_START]
    by (simp add: job'_def set_status_statuses)
  ultimately have "data_inv s1"
    using keep fresh k inv
    by (simp add: data_inv_def fields mem statuses_ok_def job'_def)
  then show ?thesis by (simp add: s1_def)
qed

lemma data_inv_pop:
  assumes inv: "data_inv s" and pc: "loop_at s = Queue_check"
  shows "data_inv (process_jobs_step s)"
proof (cases "pq_get (job_queue s)")
  case None
  with inv pc show ?thesis
    by (simp add: process_jobs_step_def data_inv_def memory_jobs_def memory_batches_def
        in_flight_def statuses_ok_def)
next
  case (Some a)
  then obtain e q where g: "pq_get (job_queue s) = Some (e, q)" by (cases a) auto
  then have e: "e \<in> set (job_queue s)" and q: "q = remove1 e (job_queue s)"
    using pq_get_is_smallest [OF g] by (simp_all add: is_smallest_def)
  define s1 where "s1 = process_jobs_step s"
  have fields: "redis_client s1 = redis_client s" "job_queue s1 = q"
    "loop_at s1 = Batch_trigger (snd e) 0"
    using pc g by (simp_all add: s1_def process_jobs_step_def)
  have mem: "memory_jobs s = map snd (job_queue s)" "memory_jobs s1 = snd e # map snd q"
    by (simp_all add: memory_jobs_def in_flight_def pc fields)
  from inv have ok: "store_ok (redis_client s)"
    and dist: "distinct (map batch_id (concat (map (batches \<circ> snd) (job_queue s))))"
    and sys: "list_all (synced (redis_client s) \<circ> snd) (job_queue s)"
    and fresh: "list_all (\<lambda>e. list_all (\<lambda>b. status b = YET_TO_START) (batches (snd e))) (job_queue s)"
    by (simp_all add: data_inv_def mem memory_batches_def list_all_iff)
  have "distinct (map batch_id ((batches \<circ> snd) e @ concat (map (batches \<circ> snd) q)))"
    unfolding q using e dist by (rule distinct_pop)
  then have "distinct (map batch_id (memory_batches s1))"
    by (simp add: memory_batches_def mem)
  moreover have "list_all (synced (redis_client s) \<circ> snd) q"
    unfolding q using sys by (rule list_all_remove1)
  moreover have "synced (redis_client s) (snd e)"
    using sys e by (simp add: list_all_iff)
  moreover have "list_all (\<lambda>e. list_all (\<lambda>b. status b = YET_TO_START) (batches (snd e))) q"
    unfolding q using fresh by (rule list_all_remove1)
  moreover have "list_all (\<lambda>b. status b = YET_TO_START) (batches (snd e))"
    using fresh e by (simp add: list_all_iff)
  then have "map status (batches (snd e)) = replicate (length (batches (snd e))) YET_TO_START"
    by (rule all_fresh_replicate)
  ultimately have "data_inv s1"
    using ok by (simp add: data_inv_def fields mem statuses_ok_def list_all_iff)
  then show ?thesis by (simp add: s1_def)
qed

lemma data_inv_scheduler:
  assumes inv: "data_inv s"
  shows "data_inv (process_jobs_step s)"
proof (cases "loop_at s")
  case (Batch_trigger job k)
  show ?thesis
  proof (cases "k < length (batches job)")
    case True
    with inv Batch_trigger show ?thesis by (rule data_inv_trigger)
  next
    case False
    with inv Batch_trigger show ?thesis
      by (simp add: process_jobs_step_def data_inv_def memory_jobs_def memory_batches_def
          in_flight_def statuses_ok_def)
  qed
next
  case (Batch_work job k until)
  show ?thesis
  proof (cases "until \<le> clock s")
    case True
    with inv Batch_work show ?thesis by (rule data_inv_work)
  next
    case False
    with inv Batch_work show ?thesis by (simp add: process_jobs_step_def)
  qed
next
  case Queue_check
  with inv show ?thesis by (rule data_inv_pop)
qed (use inv in \<open>simp_all add: process_jobs_step_def data_inv_def memory_jobs_def memory_batches_def
          in_flight_def statuses_ok_def\<close>)

lemma process_jobs_except_cases:
  "process_jobs_except s = s \<or> (\<exists>d. process_jobs_except s = s\<lparr>loop_at := Error_sleep d\<rparr>)"
proof (cases "loop_at s")
  case (Batch_trigger job k)
  then show ?thesis
    by (cases "k < length (batches job)") (auto simp: process_jobs_except_def)
next
  case (Batch_work job k until)
  then show ?thesis
    by (cases "until \<le> clock s") (auto simp: process_jobs_except_def)
qed (simp_all add: process_jobs_except_def)

lemma data_inv_abandon:
  assumes "data_inv s"
  shows "data_inv (s\<lparr>loop_at := Error_sleep d\<rparr>)"
proof -
  from assms have "distinct (map batch_id (concat (map batches (map snd (job_queue s)))))"
    and "list_all (synced (redis_client s)) (map snd (job_queue s))"
    by (simp_all add: data_inv_def memory_batches_def memory_jobs_def)
  with assms show ?thesis
    by (simp add: data_inv_def memory_batches_def memory_jobs_def in_flight_def statuses_ok_def)
qed

lemma data_inv_except: "data_inv s \<Longrightarrow> data_inv (process_jobs_except s)"
  using process_jobs_except_cases [of s] by (auto simp: data_inv_abandon)

lemma data_inv_step: "data_inv s \<Longrightarrow> event_ok s e \<Longrightarrow> data_inv (step e s)"
proof (cases e)
  case (Tick d)
  assume "data_inv s"
  then show ?thesis
    by (simp add: Tick step_def data_inv_def memory_jobs_def memory_batches_def)
next
  case (Post_ingest request iid uuid4)
  assume "data_inv s" "event_ok s e"
  then show ?thesis unfolding Post_ingest by (rule data_inv_ingest)
next
  case (Get_status iid)
  assume "data_inv s"
  then show ?thesis by (simp add: Get_status step_def get_status_def split: option.splits)
next
  case Scheduler
  assume "data_inv s"
  then show ?thesis by (simp add: Scheduler step_def data_inv_scheduler)
next
  case Scheduler_raises
  assume "data_inv s"
  then show ?thesis by (simp add: Scheduler_raises step_def data_inv_except)
qed

lemma reachable_data_inv: "reachable s \<Longrightarrow> data_inv s"
proof (induction rule: reachable.induct)
  case (reachable_init t0 r0)
  then show ?case
    by (simp add: data_inv_def init_system_def memory_jobs_def memory_batches_def in_flight_def
        statuses_ok_def)
next
  case (reachable_step s e)
  then show ?case by (simp add: data_inv_step)
qed

section \<open>What a status write changes\<close>

lemma map_of_update_other:
  "k < length xs \<Longrightarrow> fst v = fst (xs ! k) \<Longrightarrow> key \<noteq> fst v \<Longrightarrow> map_of (xs[k := v]) key = map_of xs key"
proof (induction xs arbitrary: k)
  case Nil
  then show ?case by simp
next
  case (Cons x xs)
  then show ?case by (cases k) (auto simp: prod_eq_iff)
qed

lemma lookup_present:
  assumes "distinct (map f xs)" and "x \<in> set xs"
  shows "map_of (map (\<lambda>b. (f b, g b)) xs) (f x) = Some (g x)"
proof (rule map_of_is_SomeI)
  show "distinct (map fst (map (\<lambda>b. (f b, g b)) xs))"
    using assms(1) by (simp add: comp_def)
  show "(f x, g x) \<in> set (map (\<lambda>b. (f b, g b)) xs)"
    using assms(2) by auto
qed

lemma lookup_fresh:
  "list_all (\<lambda>b. g b = c) xs \<Longrightarrow> map_of (map (\<lambda>b. (f b, g b)) xs) key = Some v \<Longrightarrow> v = c"
  by (induction xs) (auto split: if_splits)

lemma lookup_append_old:
  "map_of xs key = Some v \<Longrightarrow> map_of (xs @ ys) key = Some v"
  by (simp add: map_add_Some_iff)

lemma lookup_append_new:
  "map_of xs key = None \<Longrightarrow> map_of (xs @ ys) key = map_of ys key"
  by (simp add: map_add_def split: option.splits)

lemma lookup_drop:
  assumes "distinct (map fst (xs @ ys))" and "map_of ys key = Some v"
  shows "map_of (xs @ ys) key = Some v"
proof -
  from assms(2) have "key \<in> fst ` set ys" by (metis domI dom_map_of_conv_image_fst)
  with assms(1) have "key \<notin> fst ` set xs" by auto
  then have "map_of xs key = None" by (simp add: map_of_eq_None_iff)
  with assms(2) show ?thesis by (metis lookup_append_new)
qed

lemma persisted_of_synced:
  assumes ok: "store_ok r" and sy: "synced r job" and k: "k < length (batches job)"
  shows "map_of (map (\<lambda>b. (bd_batch_id b, bd_status b)) (stored_batches r)) (batch_id (batches job ! k))
         = Some (status (batches job ! k))"
proof -
  from sy obtain jd where jd: "map_of r (redis_key (ingestion_id job)) = Some jd"
    and eq: "jd_batches jd = map Batch_to_dict (batches job)"
    by (auto simp: synced_def redis_get_def split: option.splits)
  from jd have "(redis_key (ingestion_id job), jd) \<in> set r" by (rule map_of_SomeD)
  then have "set (jd_batches jd) \<subseteq> set (stored_batches r)" by (rule stored_mem)
  moreover have "Batch_to_dict (batches job ! k) \<in> set (jd_batches jd)"
    using k by (simp add: eq)
  ultimately have mem: "Batch_to_dict (batches job ! k) \<in> set (stored_batches r)" by auto
  from ok have "distinct (map bd_batch_id (stored_batches r))" by (simp add: store_ok_def)
  from lookup_present [OF this mem, of bd_status] show ?thesis
    by (simp add: Batch_to_dict_def)
qed

lemma status_write:
  assumes inv: "data_inv s" and mem: "memory_jobs s = job # js" and k: "k < length (batches job)"
    and r1: "redis_client s1 = update_redis_status (batches (set_status job k st) ! k) (redis_client s)"
    and m1: "memory_jobs s1 = set_status job k st # js"
  shows "persisted_status s1 = (persisted_status s)(batch_id (batches job ! k) \<mapsto> st)"
    and "persisted_status s (batch_id (batches job ! k)) = Some (status (batches job ! k))"
    and "memory_status s1 = (memory_status s)(batch_id (batches job ! k) \<mapsto> st)"
    and "memory_status s (batch_id (batches job ! k)) = Some (status (batches job ! k))"
proof -
  from inv have ok: "store_ok (redis_client s)"
    and dist: "distinct (map batch_id (batches job @ concat (map batches js)))"
    and sy: "synced (redis_client s) job"
    by (simp_all add: data_inv_def mem memory_batches_def)
  show p: "persisted_status s (batch_id (batches job ! k)) = Some (status (batches job ! k))"
    unfolding persisted_status_def using ok sy k by (rule persisted_of_synced)
  show "persisted_status s1 = (persisted_status s)(batch_id (batches job ! k) \<mapsto> st)"
  proof
    fix bid
    let ?b = "batches (set_status job k st) ! k"
    have b: "batch_id ?b = batch_id (batches job ! k)" "status ?b = st"
      using k by (simp_all add: set_status_nth)
    have "persisted_status s1 bid =
        map_of (map (\<lambda>b. (bd_batch_id b, bd_status b))
          (map (with_status ?b) (stored_batches (redis_client s)))) bid"
      by (simp only: persisted_status_def r1 update_redis_status_marked [OF ok] marked_stored_batches)
    also have "\<dots> = (if bid = batch_id ?b then map_option (\<lambda>_. status ?b) (persisted_status s bid)
        else persisted_status s bid)"
      by (simp only: with_status_lookup persisted_status_def)
    finally show "persisted_status s1 bid = ((persisted_status s)(batch_id (batches job ! k) \<mapsto> st)) bid"
      using p by (simp add: b)
  qed
  have "batches job ! k \<in> set (batches job @ concat (map batches js))"
    using k by simp
  from lookup_present [OF dist this, of status]
  show m: "memory_status s (batch_id (batches job ! k)) = Some (status (batches job ! k))"
    by (simp add: memory_status_def mem)
  let ?xs = "map (\<lambda>b. (batch_id b, status b)) (batches job @ concat (map batches js))"
  have upd: "map (\<lambda>b. (batch_id b, status b)) (batches (set_status job k st) @ concat (map batches js))
      = ?xs[k := (batch_id (batches job ! k), st)]"
    using k by (simp add: set_status_def map_update list_update_append)
  have d1: "distinct (map batch_id (batches (set_status job k st) @ concat (map batches js)))"
    using dist by simp
  have in1: "batches (set_status job k st) ! k \<in> set (batches (set_status job k st) @ concat (map batches js))"
    using k by (metis UnI1 nth_mem set_append set_status_length)
  show "memory_status s1 = (memory_status s)(batch_id (batches job ! k) \<mapsto> st)"
  proof
    fix bid
    show "memory_status s1 bid = ((memory_status s)(batch_id (batches job ! k) \<mapsto> st)) bid"
    proof (cases "bid = batch_id (batches job ! k)")
      case True
      from lookup_present [OF d1 in1, of status] k True show ?thesis
        by (simp add: memory_status_def m1 set_status_nth)
    next
      case False
      have "map_of (?xs[k := (batch_id (batches job ! k), st)]) bid = map_of ?xs bid"
        using k False by (intro map_of_update_other) (simp_all add: nth_append)
      moreover have "memory_status s1 bid = map_of (?xs[k := (batch_id (batches job ! k), st)]) bid"
        by (simp only: memory_status_def m1 upd list.map concat.simps)
      moreover have "memory_status s bid = map_of ?xs bid"
        by (simp only: memory_status_def mem list.map concat.simps)
      ultimately show ?thesis using False by simp
    qed
  qed
qed

section \<open>Statuses only move forward\<close>

lemma moves_forward_same:
  "persisted_status s' = persisted_status s \<Longrightarrow> memory_status s' = memory_status s \<Longrightarrow> moves_forward s s'"
  by (simp add: moves_forward_def forward_def)

lemma moves_forward_write:
  assumes "persisted_status s' = (persisted_status s)(bid \<mapsto> b)"
    and "persisted_status s bid = Some a"
    and "memory_status s' = (memory_status s)(bid \<mapsto> b)"
    and "memory_status s bid = Some a"
    and "forward a b"
  shows "moves_forward s s'"
  using assms by (auto simp: moves_forward_def forward_def)

lemma trigger_status:
  assumes "statuses_ok (Batch_trigger job k)" and "k < length (batches job)"
  shows "status (batches job ! k) = YET_TO_START"
proof -
  have "status (batches job ! k) = map status (batches job) ! k"
    using assms(2) by simp
  also have "\<dots> = (replicate k COMPLETED @ replicate (length (batches job) - k) YET_TO_START) ! k"
    using assms(1) by (simp add: statuses_ok_def)
  also have "\<dots> = YET_TO_START"
    using assms(2) by (simp add: nth_append)
  finally show ?thesis .
qed

lemma work_status:
  assumes "statuses_ok (Batch_work job k until)"
  shows "status (batches job ! k) = TRIGGERED"
proof -
  from assms have k: "k < length (batches job)" by (simp add: statuses_ok_def)
  then have "status (batches job ! k) = map status (batches job) ! k" by simp
  also have "\<dots> = (replicate k COMPLETED @ TRIGGERED #
      replicate (length (batches job) - Suc k) YET_TO_START) ! k"
    using assms by (simp add: statuses_ok_def)
  also have "\<dots> = TRIGGERED" by (simp add: nth_append)
  finally show ?thesis .
qed

lemma forward_ingest:
  assumes inv: "data_inv s" and ok: "event_ok s (Post_ingest request iid uuid4)"
  shows "moves_forward s (step (Post_ingest request iid uuid4) s)"
proof (cases "find (\<lambda>i. \<not> valid_id i) (req_ids request)")
  case (Some i)
  then show ?thesis by (simp add: step_def ingest_data_reject moves_forward_same)
next
  case None
  define job where "job = IngestionJob_init uuid4 iid (req_ids request) (req_priority request) (clock s)"
  define s1 where "s1 = step (Post_ingest request iid uuid4) s"
  from ok have key: "redis_key iid \<notin> fst ` set (redis_client s)"
    by (simp add: event_ok_def)
  have s': "s1 =
      s\<lparr>redis_client := redis_client s @ [(redis_key iid, IngestionJob_to_dict job)],
        job_queue := job_queue s @ [(get_value (req_priority request), job)]\<rparr>"
    using ingest_data_accept [OF None key, of uuid4] by (simp add: s1_def step_def job_def)
  have fields: "redis_client s1 = redis_client s @ [(redis_key iid, IngestionJob_to_dict job)]"
    "job_queue s1 = job_queue s @ [(get_value (req_priority request), job)]"
    "loop_at s1 = loop_at s"
    by (simp_all add: s')
  have fresh: "list_all (\<lambda>b. status b = YET_TO_START) (batches job)"
    by (simp add: job_def IngestionJob_init_def create_batches_fresh)
  let ?new = "map (\<lambda>b. (batch_id b, status b)) (batches job)"
  have p: "map_of (map (\<lambda>b. (bd_batch_id b, bd_status b)) (stored_batches (redis_client s1))) bid =
      map_of (map (\<lambda>b. (bd_batch_id b, bd_status b)) (stored_batches (redis_client s)) @ ?new) bid" for bid
    by (simp add: fields IngestionJob_to_dict_def Batch_to_dict_def comp_def)
  have m: "map_of (map (\<lambda>b. (batch_id b, status b)) (concat (map batches (memory_jobs s1)))) bid =
      map_of (map (\<lambda>b. (batch_id b, status b)) (concat (map batches (memory_jobs s))) @ ?new) bid" for bid
    by (simp add: memory_jobs_def fields)
  have new: "v = YET_TO_START" if "map_of ?new bid = Some v" for bid v
    using fresh that by (rule lookup_fresh)
  have p_old: "persisted_status s1 bid = Some a" if "persisted_status s bid = Some a" for bid a
    using that unfolding persisted_status_def p by (rule lookup_append_old)
  have p_new: "b = YET_TO_START"
    if "persisted_status s bid = None" "persisted_status s1 bid = Some b" for bid b
  proof -
    from that(1) have "persisted_status s1 bid = map_of ?new bid"
      unfolding persisted_status_def p by (rule lookup_append_new)
    with that(2) show ?thesis by (simp add: new)
  qed
  have m_old: "memory_status s1 bid = Some a" if "memory_status s bid = Some a" for bid a
    using that unfolding memory_status_def m by (rule lookup_append_old)
  have m_new: "b = YET_TO_START"
    if "memory_status s bid = None" "memory_status s1 bid = Some b" for bid b
  proof -
    from that(1) have "memory_status s1 bid = map_of ?new bid"
      unfolding memory_status_def m by (rule lookup_append_new)
    with that(2) show ?thesis by (simp add: new)
  qed
  have "moves_forward s s1"
    unfolding moves_forward_def
  proof (intro conjI allI impI)
    fix bid a
    assume "persisted_status s bid = Some a"
    then have "persisted_status s1 bid = Some a" by (rule p_old)
    then show "\<exists>b. persisted_status s1 bid = Some b \<and> forward a b"
      by (simp add: forward_def)
  next
    fix bid b
    assume "persisted_status s bid = None" "persisted_status s1 bid = Some b"
    then show "b = YET_TO_START" by (rule p_new)
  next
    fix bid a b
    assume "memory_status s bid = Some a" "memory_status s1 bid = Some b"
    with m_old [of bid a] show "forward a b" by (simp add: forward_def)
  next
    fix bid b
    assume "memory_status s bid = None" "memory_status s1 bid = Some b"
    then show "b = YET_TO_START" by (rule m_new)
  qed

  then show ?thesis by (simp add: s1_def)
qed

lemma forward_trigger:
  assumes inv: "data_inv s" and pc: "loop_at s = Batch_trigger job k"
  shows "moves_forward s (process_jobs_step s)"
proof (cases "k < length (batches job)")
  case True
  define s1 where "s1 = process_jobs_step s"
  have fields: "redis_client s1 =
      update_redis_status (batches (set_status job k TRIGGERED) ! k) (redis_client s)"
    "job_queue s1 = job_queue s" "loop_at s1 = Batch_work (set_status job k TRIGGERED) k (clock s + 1)"
    using pc True by (simp_all add: s1_def process_jobs_step_def Let_def)
  have mem: "memory_jobs s = job # map snd (job_queue s)"
    "memory_jobs s1 = set_status job k TRIGGERED # map snd (job_queue s)"
    by (simp_all add: memory_jobs_def in_flight_def pc fields)
  from inv pc have "statuses_ok (Batch_trigger job k)" by (simp add: data_inv_def)
  then have old: "status (batches job ! k) = YET_TO_START" using True by (rule trigger_status)
  note w = status_write [OF inv mem(1) True fields(1) mem(2)]
  have "moves_forward s s1"
    by (rule moves_forward_write [OF w(1) w(2) w(3) w(4)]) (simp add: old forward_def)
  then show ?thesis by (simp add: s1_def)
next
  case False
  define s1 where "s1 = process_jobs_step s"
  have fields: "redis_client s1 = redis_client s" "job_queue s1 = job_queue s" "loop_at s1 = Loop_head"
    using pc False by (simp_all add: s1_def process_jobs_step_def)
  let ?f = "\<lambda>b. (batch_id b, status b)"
  have m: "memory_status s bid = map_of (map ?f (batches job) @ map ?f (concat (map (batches \<circ> snd) (job_queue s)))) bid"
    "memory_status s1 bid = map_of (map ?f (concat (map (batches \<circ> snd) (job_queue s)))) bid" for bid
    by (simp_all add: memory_status_def memory_jobs_def in_flight_def pc fields)
  from inv have "distinct (map batch_id (batches job @ concat (map (batches \<circ> snd) (job_queue s))))"
    by (simp add: data_inv_def memory_batches_def memory_jobs_def in_flight_def pc)
  then have d: "distinct (map fst (map ?f (batches job) @ map ?f (concat (map (batches \<circ> snd) (job_queue s)))))"
    by (simp add: comp_def)
  have keep: "memory_status s bid = Some b" if "memory_status s1 bid = Some b" for bid b
    unfolding m using d that [unfolded m] by (rule lookup_drop)
  have "persisted_status s1 = persisted_status s"
    by (rule ext) (simp add: persisted_status_def fields)
  then have "moves_forward s s1"
    using keep by (auto simp: moves_forward_def forward_def)
  then show ?thesis by (simp add: s1_def)
qed

lemma forward_work:
  assumes inv: "data_inv s" and pc: "loop_at s = Batch_work job k until"
  shows "moves_forward s (process_jobs_step s)"
proof (cases "until \<le> clock s")
  case True
  define s1 where "s1 = process_jobs_step s"
  have fields: "redis_client s1 =
      update_redis_status (batches (set_status job k COMPLETED) ! k) (redis_client s)"
    "job_queue s1 = job_queue s" "loop_at s1 = Batch_trigger (set_status job k COMPLETED) (k + 1)"
    using pc True by (simp_all add: s1_def process_jobs_step_def Let_def)
  have mem: "memory_jobs s = job # map snd (job_queue s)"
    "memory_jobs s1 = set_status job k COMPLETED # map snd (job_queue s)"
    by (simp_all add: memory_jobs_def in_flight_def pc fields)
  from inv pc have ok: "statuses_ok (Batch_work job k until)" by (simp add: data_inv_def)
  then have old: "status (batches job ! k) = TRIGGERED" by (rule work_status)
  from ok have k: "k < length (batches job)" by (simp add: statuses_ok_def)
  note w = status_write [OF inv mem(1) k fields(1) mem(2)]
  have "moves_forward s s1"
    by (rule moves_forward_write [OF w(1) w(2) w(3) w(4)]) (simp add: old forward_def)
  then show ?thesis by (simp add: s1_def)
next
  case False
  with pc show ?thesis by (simp add: process_jobs_step_def moves_forward_same)
qed

lemma forward_pop:
  assumes inv: "data_inv s" and pc: "loop_at s = Queue_check"
  shows "moves_forward s (process_jobs_step s)"
proof (cases "pq_get (job_queue s)")
  case None
  with pc show ?thesis
    by (intro moves_forward_same ext)
      (simp_all add: process_jobs_step_def persisted_status_def memory_status_def memory_jobs_def
        in_flight_def)
next
  case (Some a)
  then obtain e q where g: "pq_get (job_queue s) = Some (e, q)" by (cases a) auto
  then have e: "e \<in> set (job_queue s)" and q: "q = remove1 e (job_queue s)"
    using pq_get_is_smallest [OF g] by (simp_all add: is_smallest_def)
  define s1 where "s1 = process_jobs_step s"
  have fields: "redis_client s1 = redis_client s" "job_queue s1 = q"
    "loop_at s1 = Batch_trigger (snd e) 0"
    using pc g by (simp_all add: s1_def process_jobs_step_def)
  have mem: "memory_batches s = concat (map (batches \<circ> snd) (job_queue s))"
    "memory_batches s1 = (batches \<circ> snd) e @ concat (map (batches \<circ> snd) q)"
    by (simp_all add: memory_batches_def memory_jobs_def in_flight_def pc fields)
  have "mset (memory_batches s1) = mset (memory_batches s)"
    unfolding mem q using e by (rule mset_concat_remove1)
  then have set: "set (memory_batches s1) = set (memory_batches s)" by (rule mset_eq_setD)
  have "data_inv s1" unfolding s1_def using inv by (rule data_inv_scheduler)
  with inv have d: "distinct (map batch_id (memory_batches s))" "distinct (map batch_id (memory_batches s1))"
    by (simp_all add: data_inv_def)
  let ?f = "\<lambda>b. (batch_id b, status b)"
  have "map_of (map ?f (memory_batches s1)) = map_of (map ?f (memory_batches s))"
    using d set by (subst map_of_inject_set) (simp_all add: comp_def)
  then have "memory_status s1 = memory_status s"
    by (intro ext) (simp add: memory_status_def memory_batches_def)
  moreover have "persisted_status s1 = persisted_status s"
    by (rule ext) (simp add: persisted_status_def fields)
  ultimately have "moves_forward s s1" by (rule moves_forward_same [rotated])
  then show ?thesis by (simp add: s1_def)
qed

lemma forward_scheduler:
  assumes inv: "data_inv s"
  shows "moves_forward s (process_jobs_step s)"
proof (cases "loop_at s")
  case (Batch_trigger job k)
  with inv show ?thesis by (rule forward_trigger)
next
  case (Batch_work job k until)
  with inv show ?thesis by (rule forward_work)
next
  case Queue_check
  with inv show ?thesis by (rule forward_pop)
qed (auto intro!: moves_forward_same ext
      simp: process_jobs_step_def persisted_status_def memory_status_def memory_jobs_def in_flight_def)

lemma forward_abandon:
  assumes inv: "data_inv s"
  shows "moves_forward s (s\<lparr>loop_at := Error_sleep d\<rparr>)"
proof -
  let ?f = "\<lambda>b. (batch_id b, status b)"
  let ?s1 = "s\<lparr>loop_at := Error_sleep d\<rparr>"
  have m: "memory_status s bid =
      map_of (map ?f (concat (map batches (in_flight (loop_at s)))) @
        map ?f (concat (map (batches \<circ> snd) (job_queue s)))) bid"
    "memory_status ?s1 bid = map_of (map ?f (concat (map (batches \<circ> snd) (job_queue s)))) bid" for bid
    by (simp_all add: memory_status_def memory_jobs_def in_flight_def)
  from inv have "distinct (map batch_id (concat (map batches (in_flight (loop_at s))) @
      concat (map (batches \<circ> snd) (job_queue s))))"
    by (simp add: data_inv_def memory_batches_def memory_jobs_def)
  then have d: "distinct (map fst (map ?f (concat (map batches (in_flight (loop_at s)))) @
      map ?f (concat (map (batches \<circ> snd) (job_queue s)))))"
    by (simp add: comp_def)
  have keep: "memory_status s bid = Some b" if "memory_status ?s1 bid = Some b" for bid b
    unfolding m using d that [unfolded m] by (rule lookup_drop)
  have "persisted_status ?s1 = persisted_status s"
    by (rule ext) (simp add: persisted_status_def)
  then show ?thesis
    using keep by (auto simp: moves_forward_def forward_def)
qed

lemma forward_except: "data_inv s \<Longrightarrow> moves_forward s (process_jobs_except s)"
  using process_jobs_except_cases [of s] by (auto simp: forward_abandon moves_forward_same)

text \<open>
  C4. In every reachable state, whatever happens next (time passing, a request, a step
  of the loop, a store call of the loop raising), the status of every batch, in the
  stored records and in memory, stays as it is or moves one place along
  \<open>yet_to_start\<close>, \<open>triggered\<close>, \<open>completed\<close>; a batch that appears is \<open>yet_to_start\<close>.
\<close>

theorem batch_status_forward:
  assumes "reachable s" and "event_ok s e"
  shows "moves_forward s (step e s)"
proof -
  from assms(1) have inv: "data_inv s" by (rule reachable_data_inv)
  show ?thesis
  proof (cases e)
    case (Tick d)
    then show ?thesis
      by (intro moves_forward_same ext)
        (simp_all add: step_def persisted_status_def memory_status_def memory_jobs_def)
  next
    case (Post_ingest request iid uuid4)
    with inv assms(2) show ?thesis by (simp add: forward_ingest)
  next
    case (Get_status iid)
    then show ?thesis
      by (intro moves_forward_same) (simp_all add: step_def get_status_def split: option.splits)
  next
    case Scheduler
    with inv show ?thesis by (simp add: step_def forward_scheduler)
  next
    case Scheduler_raises
    with inv show ?thesis by (simp add: step_def forward_except)
  qed
qed

section \<open>Timing of dispatches\<close>

lemma reachable_run: "reachable s \<Longrightarrow> events_ok s es \<Longrightarrow> reachable (run es s)"
  by (induction es arbitrary: s) (auto intro: reachable_step)

lemma time_inv_scheduler:
  assumes "time_inv s"
  shows "time_inv (process_jobs_step s) \<and> last_processed_time s \<le> last_processed_time (process_jobs_step s)
    \<and> clock (process_jobs_step s) = clock s"
proof (cases "loop_at s")
  case (Batch_trigger job k)
  with assms show ?thesis
    by (cases "k < length (batches job)") (simp_all add: time_inv_def process_jobs_step_def Let_def)
next
  case (Batch_work job k until)
  with assms show ?thesis
    by (cases "until \<le> clock s") (simp_all add: time_inv_def process_jobs_step_def Let_def)
next
  case Queue_check
  with assms show ?thesis
    by (cases "pq_get (job_queue s)") (auto simp: time_inv_def process_jobs_step_def)
next
  case (Throttle_check current_time)
  with assms show ?thesis
    by (cases "current_time - last_processed_time s < 5")
      (simp_all add: time_inv_def process_jobs_step_def)
next
  case (Throttle_sleep until)
  with assms show ?thesis
    by (cases "until \<le> clock s") (simp_all add: time_inv_def process_jobs_step_def)
next
  case (Idle_sleep until)
  with assms show ?thesis
    by (cases "until \<le> clock s") (simp_all add: time_inv_def process_jobs_step_def)
next
  case (Error_sleep until)
  with assms show ?thesis
    by (cases "until \<le> clock s") (simp_all add: time_inv_def process_jobs_step_def)
next
  case Loop_head
  with assms show ?thesis by (simp add: time_inv_def process_jobs_step_def)
qed

lemma time_inv_except:
  assumes "time_inv s"
  shows "time_inv (process_jobs_except s)
    \<and> last_processed_time (process_jobs_except s) = last_processed_time s
    \<and> clock (process_jobs_except s) = clock s"
proof -
  from process_jobs_except_cases [of s] show ?thesis
  proof (elim disjE exE)
    assume "process_jobs_except s = s"
    with assms show ?thesis by simp
  next
    fix d
    assume "process_jobs_except s = s\<lparr>loop_at := Error_sleep d\<rparr>"
    with assms show ?thesis by (simp add: time_inv_def)
  qed
qed

lemma ingest_data_time:
  "last_processed_time (snd (ingest_data request iid uuid4 s)) = last_processed_time s
   \<and> clock (snd (ingest_data request iid uuid4 s)) = clock s
   \<and> loop_at (snd (ingest_data request iid uuid4 s)) = loop_at s"
  by (simp add: ingest_data_def Let_def split: option.splits)

lemma time_inv_step:
  assumes "time_inv s" and "event_ok s e"
  shows "time_inv (step e s) \<and> last_processed_time s \<le> last_processed_time (step e s)"
proof (cases e)
  case (Tick d)
  with assms show ?thesis
    by (auto simp: time_inv_def step_def event_ok_def split: pc.splits)
next
  case (Post_ingest request iid uuid4)
  with assms show ?thesis
    by (auto simp: time_inv_def step_def ingest_data_time split: pc.splits)
next
  case (Get_status iid)
  with assms show ?thesis
    by (simp add: step_def get_status_def split: option.splits)
next
  case Scheduler
  with assms time_inv_scheduler [of s] show ?thesis by (simp add: step_def)
next
  case Scheduler_raises
  with assms time_inv_except [of s] show ?thesis by (simp add: step_def)
qed

lemma time_inv_run:
  "time_inv s \<Longrightarrow> events_ok s es \<Longrightarrow>
   time_inv (run es s) \<and> last_processed_time s \<le> last_processed_time (run es s)"
proof (induction es arbitrary: s)
  case Nil
  then show ?case by simp
next
  case (Cons e es)
  from Cons.prems have e: "time_inv (step e s)" "last_processed_time s \<le> last_processed_time (step e s)"
    using time_inv_step [of s e] by auto
  from Cons.prems Cons.IH [OF e(1)] have
    "time_inv (run es (step e s))" "last_processed_time (step e s) \<le> last_processed_time (run es (step e s))"
    by auto
  with e(2) show ?case by simp
qed

lemma reachable_time_inv: "reachable s \<Longrightarrow> time_inv s"
proof (induction rule: reachable.induct)
  case (reachable_init t0 r0)
  then show ?case by (simp add: time_inv_def init_system_def)
next
  case (reachable_step s e)
  then show ?case by (simp add: time_inv_step)
qed

text \<open>
  C6, as the code has it. When the loop has gone through all batches of a job and
  records the end of the dispatch (\<open>last_processed_time\<close> takes the clock reading), every
  later state in which the loop stands at the queue check, where the next job is
  popped, has a clock at least 5 units later; at every queue check the clock is at
  least 5 units past the last recorded end. Between two batches of one job there is no
  such wait: when the work on a batch is over, the next two steps of the loop complete
  it and start the work on the next batch, at the same clock reading. A dispatch that
  a raising store call cuts short records no end: the loop goes to its sleep of 1 unit
  and everything else stays as it is.
\<close>

theorem dispatch_spacing:
  assumes "reachable s"
  shows "(\<forall>job k es. loop_at s = Batch_trigger job k \<longrightarrow> length (batches job) \<le> k \<longrightarrow>
            events_ok (step Scheduler s) es \<longrightarrow> loop_at (run es (step Scheduler s)) = Queue_check \<longrightarrow>
            last_processed_time (step Scheduler s) = clock s
            \<and> clock s + 5 \<le> clock (run es (step Scheduler s)))
     \<and> (\<forall>job k until. loop_at s = Batch_work job k until \<longrightarrow> until \<le> clock s \<longrightarrow>
            Suc k < length (batches job) \<longrightarrow>
            (\<exists>job'. loop_at (run [Scheduler, Scheduler] s) = Batch_work job' (Suc k) (clock s + 1)))
     \<and> (loop_at s = Queue_check \<longrightarrow> last_processed_time s + 5 \<le> clock s)
     \<and> (\<forall>job k. loop_at s = Batch_trigger job k \<longrightarrow> k < length (batches job) \<longrightarrow>
            step Scheduler_raises s = s\<lparr>loop_at := Error_sleep (clock s + 1)\<rparr>)
     \<and> (\<forall>job k until. loop_at s = Batch_work job k until \<longrightarrow> until \<le> clock s \<longrightarrow>
            step Scheduler_raises s = s\<lparr>loop_at := Error_sleep (clock s + 1)\<rparr>)"
proof (intro conjI allI impI)
  fix job k es
  assume pc: "loop_at s = Batch_trigger job k" and k: "length (batches job) \<le> k"
    and es: "events_ok (step Scheduler s) es"
    and q: "loop_at (run es (step Scheduler s)) = Queue_check"
  let ?s1 = "step Scheduler s"
  from pc k show last: "last_processed_time ?s1 = clock s"
    by (simp add: step_def process_jobs_step_def)
  have "reachable ?s1" using assms by (rule reachable_step) (simp add: event_ok_def)
  then have "time_inv ?s1" by (rule reachable_time_inv)
  from time_inv_run [OF this es]
  have "time_inv (run es ?s1)" "last_processed_time ?s1 \<le> last_processed_time (run es ?s1)"
    by auto
  with q last show "clock s + 5 \<le> clock (run es ?s1)"
    by (simp add: time_inv_def)
next
  fix job k until
  assume pc: "loop_at s = Batch_work job k until" and w: "until \<le> clock s"
    and k: "Suc k < length (batches job)"
  then show "\<exists>job'. loop_at (run [Scheduler, Scheduler] s) = Batch_work job' (Suc k) (clock s + 1)"
    by (simp add: step_def process_jobs_step_def Let_def)
next
  assume "loop_at s = Queue_check"
  with reachable_time_inv [OF assms] show "last_processed_time s + 5 \<le> clock s"
    by (simp add: time_inv_def)
next
  fix job k
  assume "loop_at s = Batch_trigger job k" "k < length (batches job)"
  then show "step Scheduler_raises s = s\<lparr>loop_at := Error_sleep (clock s + 1)\<rparr>"
    by (simp add: step_def process_jobs_except_def)
next
  fix job k until
  assume "loop_at s = Batch_work job k until" "until \<le> clock s"
  then show "step Scheduler_raises s = s\<lparr>loop_at := Error_sleep (clock s + 1)\<rparr>"
    by (simp add: step_def process_jobs_except_def)
qed

section \<open>Order within a dispatch\<close>

text \<open>
  C5. While the work on batch \<open>k\<close> of the popped job is under way, the stored record of
  the job (what a status query returns) shows the batches before \<open>k\<close> completed, batch
  \<open>k\<close> triggered and the later ones not started; the loop stays there until the work
  is over and only then writes \<open>completed\<close> and moves to batch \<open>k + 1\<close>. Before batch
  \<open>k\<close> is triggered the record shows it not started.
\<close>

theorem dispatch_order:
  assumes "reachable s"
  shows "(\<forall>job k until. loop_at s = Batch_work job k until \<longrightarrow>
            k < length (batches job)
            \<and> (\<exists>jd. get_status (ingestion_id job) s = (Inr jd, s)
                 \<and> map bd_status (jd_batches jd) =
                     replicate k COMPLETED @ TRIGGERED #
                     replicate (length (batches job) - Suc k) YET_TO_START)
            \<and> (clock s < until \<longrightarrow> step Scheduler s = s)
            \<and> (until \<le> clock s \<longrightarrow>
                 loop_at (step Scheduler s) = Batch_trigger (set_status job k COMPLETED) (k + 1)))
     \<and> (\<forall>job k. loop_at s = Batch_trigger job k \<longrightarrow>
            (\<exists>jd. get_status (ingestion_id job) s = (Inr jd, s)
                 \<and> map bd_status (jd_batches jd) =
                     replicate k COMPLETED @ replicate (length (batches job) - k) YET_TO_START)
            \<and> (k < length (batches job) \<longrightarrow>
                 loop_at (step Scheduler s) = Batch_work (set_status job k TRIGGERED) k (clock s + 1)))"
proof -
  from assms have inv: "data_inv s" by (rule reachable_data_inv)
  have rec: "\<exists>jd. get_status (ingestion_id job) s = (Inr jd, s)
      \<and> map bd_status (jd_batches jd) = map status (batches job)"
    if "job \<in> set (memory_jobs s)" for job
  proof -
    from inv that have "synced (redis_client s) job" by (simp add: data_inv_def list_all_iff)
    then obtain jd where "redis_get (redis_client s) (redis_key (ingestion_id job)) = Some jd"
      and "jd_batches jd = map Batch_to_dict (batches job)"
      by (auto simp: synced_def split: option.splits)
    then show ?thesis by (simp add: get_status_def Batch_to_dict_def comp_def)
  qed
  show ?thesis
  proof (intro conjI allI impI)
    fix job k until
    assume pc: "loop_at s = Batch_work job k until"
    with inv have st: "statuses_ok (Batch_work job k until)" by (simp add: data_inv_def)
    then show "k < length (batches job)" by (simp add: statuses_ok_def)
    from pc have "job \<in> set (memory_jobs s)" by (simp add: memory_jobs_def in_flight_def)
    from rec [OF this] st
    show "\<exists>jd. get_status (ingestion_id job) s = (Inr jd, s)
        \<and> map bd_status (jd_batches jd) =
            replicate k COMPLETED @ TRIGGERED # replicate (length (batches job) - Suc k) YET_TO_START"
      by (simp add: statuses_ok_def)
    show "step Scheduler s = s" if "clock s < until"
      using pc that by (simp add: step_def process_jobs_step_def)
    show "loop_at (step Scheduler s) = Batch_trigger (set_status job k COMPLETED) (k + 1)"
      if "until \<le> clock s"
      using pc that by (simp add: step_def process_jobs_step_def Let_def)
  next
    fix job k
    assume pc: "loop_at s = Batch_trigger job k"
    with inv have st: "statuses_ok (Batch_trigger job k)" by (simp add: data_inv_def)
    from pc have "job \<in> set (memory_jobs s)" by (simp add: memory_jobs_def in_flight_def)
    from rec [OF this] st
    show "\<exists>jd. get_status (ingestion_id job) s = (Inr jd, s)
        \<and> map bd_status (jd_batches jd) =
            replicate k COMPLETED @ replicate (length (batches job) - k) YET_TO_START"
      by (simp add: statuses_ok_def)
    show "loop_at (step Scheduler s) = Batch_work (set_status job k TRIGGERED) k (clock s + 1)"
      if "k < length (batches job)"
      using pc that by (simp add: step_def process_jobs_step_def Let_def)
  qed
qed

section \<open>Empty identifier lists\<close>

lemma scheduler_store:
  "redis_client (process_jobs_step s) = redis_client s
   \<or> (\<exists>b. redis_client (process_jobs_step s) = update_redis_status b (redis_client s))"
proof (cases "loop_at s")
  case (Batch_trigger job k)
  then show ?thesis
    by (cases "k < length (batches job)") (auto simp: process_jobs_step_def Let_def)
next
  case (Batch_work job k until)
  then show ?thesis
    by (cases "until \<le> clock s") (auto simp: process_jobs_step_def Let_def)
next
  case Queue_check
  then show ?thesis
    by (cases "pq_get (job_queue s)") (auto simp: process_jobs_step_def)
qed (simp_all add: process_jobs_step_def)

lemma empty_record_stable:
  assumes inv: "data_inv s" and ok: "event_ok s e"
    and jd: "redis_get (redis_client s) key = Some jd" and empty: "jd_batches jd = []"
  shows "redis_get (redis_client (step e s)) key = Some jd"
proof (cases e)
  case (Tick d)
  with jd show ?thesis by (simp add: step_def)
next
  case (Get_status iid)
  with jd show ?thesis by (simp add: step_def get_status_def split: option.splits)
next
  case (Post_ingest request iid uuid4)
  show ?thesis
  proof (cases "find (\<lambda>i. \<not> valid_id i) (req_ids request)")
    case (Some i)
    with jd show ?thesis by (simp add: Post_ingest step_def ingest_data_reject)
  next
    case None
    from ok have "redis_key iid \<notin> fst ` set (redis_client s)"
      by (simp add: Post_ingest event_ok_def)
    from ingest_data_accept [OF None this, of uuid4] jd show ?thesis
      by (simp add: Post_ingest step_def redis_get_def map_of_append_old del: map_of_append)
  qed
next
  case Scheduler
  from inv have store: "store_ok (redis_client s)" by (simp add: data_inv_def)
  from scheduler_store [of s] show ?thesis
  proof
    assume "redis_client (process_jobs_step s) = redis_client s"
    with jd show ?thesis by (simp add: Scheduler step_def)
  next
    assume "\<exists>b. redis_client (process_jobs_step s) = update_redis_status b (redis_client s)"
    then obtain b where "redis_client (process_jobs_step s) = marked b (redis_client s)"
      using store by (auto simp: update_redis_status_marked)
    with jd empty show ?thesis
      by (simp add: Scheduler step_def redis_get_def marked_get)
  qed
next
  case Scheduler_raises
  from process_jobs_except_cases [of s] have "redis_client (process_jobs_except s) = redis_client s"
    by (elim disjE exE) simp_all
  with jd show ?thesis by (simp add: Scheduler_raises step_def)
qed

lemma empty_record_kept:
  "reachable s \<Longrightarrow> events_ok s es \<Longrightarrow> redis_get (redis_client s) key = Some jd \<Longrightarrow>
   jd_batches jd = [] \<Longrightarrow> redis_get (redis_client (run es s)) key = Some jd"
proof (induction es arbitrary: s)
  case Nil
  then show ?case by simp
next
  case (Cons e es)
  from Cons.prems have "reachable (step e s)" by (auto intro: reachable_step)
  moreover from Cons.prems have "redis_get (redis_client (step e s)) key = Some jd"
    by (intro empty_record_stable reachable_data_inv) auto
  ultimately show ?case using Cons.prems Cons.IH [of "step e s"] by simp
qed

lemma create_batches_Nil [simp]: "create_batches uuid4 [] = []"
  by (simp add: create_batches_def create_batches_loop.simps)

text \<open>
  C10. Ingesting an empty identifier list succeeds, and from then on, through every
  later event (the dispatch of that job included), the status query returns the record
  with no batches and overall status \<open>completed\<close>.
\<close>

theorem ingest_empty_list:
  assumes "reachable s"
    and "event_ok s (Post_ingest \<lparr>req_ids = [], req_priority = p\<rparr> iid uuid4)"
    and "events_ok (step (Post_ingest \<lparr>req_ids = [], req_priority = p\<rparr> iid uuid4) s) es"
  shows "fst (ingest_data \<lparr>req_ids = [], req_priority = p\<rparr> iid uuid4 s) = Inr iid
     \<and> fst (get_status iid (run es (step (Post_ingest \<lparr>req_ids = [], req_priority = p\<rparr> iid uuid4) s)))
         = Inr \<lparr>jd_ingestion_id = iid, jd_status = COMPLETED, jd_batches = []\<rparr>"
proof -
  let ?e = "Post_ingest \<lparr>req_ids = [], req_priority = p\<rparr> iid uuid4"
  let ?jd = "\<lparr>jd_ingestion_id = iid, jd_status = COMPLETED, jd_batches = []\<rparr>"
  from assms(2) have key: "redis_key iid \<notin> fst ` set (redis_client s)"
    by (simp add: event_ok_def)
  have "redis_client (step ?e s) = redis_client s @ [(redis_key iid, ?jd)]"
    using ingest_data_accept [of "\<lparr>req_ids = [], req_priority = p\<rparr>" iid s uuid4] key
    by (simp add: step_def IngestionJob_to_dict_def IngestionJob_init_def get_overall_status_def)
  then have "redis_get (redis_client (step ?e s)) (redis_key iid) = Some ?jd"
    using map_of_append_new [OF key, of ?jd] by (simp add: redis_get_def del: map_of_append)
  moreover have "reachable (step ?e s)" using assms(1,2) by (rule reachable_step)
  ultimately have "redis_get (redis_client (run es (step ?e s))) (redis_key iid) = Some ?jd"
    using assms(3) by (intro empty_record_kept) simp_all
  then show ?thesis by (simp add: get_status_def ingest_data_def Let_def)
qed

theorem ingest_empty_list_witness:
  "fst (get_status ''e''
     (run [Scheduler, Scheduler, Scheduler, Scheduler]
        (step (Post_ingest \<lparr>req_ids = [], req_priority = LOW\<rparr> ''e'' (\<lambda>n. ''b'')) (init_system 100 []))))
   = Inr \<lparr>jd_ingestion_id = ''e'', jd_status = COMPLETED, jd_batches = []\<rparr>"
proof -
  have "reachable (init_system 100 [])"
    by (rule reachable_init) (simp_all add: store_ok_def)
  from ingest_empty_list [OF this, of LOW "''e''" "\<lambda>n. ''b''" "[Scheduler, Scheduler, Scheduler, Scheduler]"]
  show ?thesis by (simp add: event_ok_def init_system_def)
qed

section \<open>Queue entries of the service\<close>

text \<open>Every entry that \<^verbatim>\<open>ingest_data\<close> has put in the queue carries the rank of its job.\<close>

lemma queue_ranks_scheduler:
  assumes "\<forall>x \<in> set (job_queue s). fst x = get_value (priority (snd x))"
  shows "\<forall>x \<in> set (job_queue (process_jobs_step s)). fst x = get_value (priority (snd x))"
proof (cases "loop_at s")
  case (Batch_trigger job k)
  with assms show ?thesis
    by (cases "k < length (batches job)") (simp_all add: process_jobs_step_def Let_def)
next
  case (Batch_work job k until)
  with assms show ?thesis
    by (cases "until \<le> clock s") (simp_all add: process_jobs_step_def Let_def del: get_value.simps)
next
  case Queue_check
  show ?thesis
  proof (cases "pq_get (job_queue s)")
    case None
    with assms Queue_check show ?thesis by (simp add: process_jobs_step_def del: get_value.simps)
  next
    case (Some a)
    then obtain e q where g: "pq_get (job_queue s) = Some (e, q)" by (cases a) auto
    then have "q = remove1 e (job_queue s)" using pq_get_is_smallest [OF g] by simp
    then have "set q \<subseteq> set (job_queue s)" by (simp add: set_remove1_subset)
    with assms Queue_check g show ?thesis
      by (auto simp: process_jobs_step_def simp del: get_value.simps)
  qed
qed (use assms in \<open>simp_all add: process_jobs_step_def del: get_value.simps\<close>)

lemma reachable_queue_ranks:
  "reachable s \<Longrightarrow> \<forall>x \<in> set (job_queue s). fst x = get_value (priority (snd x))"
proof (induction rule: reachable.induct)
  case (reachable_init t0 r0)
  then show ?case by (simp add: init_system_def)
next
  case (reachable_step s e)
  show ?case
  proof (cases e)
    case (Tick d)
    with reachable_step.IH show ?thesis by (simp add: step_def del: get_value.simps)
  next
    case (Post_ingest request iid uuid4)
    have "priority (IngestionJob_init uuid4 iid (req_ids request) (req_priority request) (clock s))
        = req_priority request"
      by (simp add: IngestionJob_init_def)
    with Post_ingest reachable_step.IH show ?thesis
      by (cases "find (\<lambda>i. \<not> valid_id i) (req_ids request)")
        (simp_all add: step_def ingest_data_def Let_def pq_put_def del: get_value.simps)
  next
    case (Get_status iid)
    with reachable_step.IH show ?thesis
      by (simp add: step_def get_status_def del: get_value.simps split: option.splits)
  next
    case Scheduler
    with reachable_step.IH show ?thesis
      by (simp add: step_def queue_ranks_scheduler del: get_value.simps)
  next
    case Scheduler_raises
    from process_jobs_except_cases [of s] have "job_queue (process_jobs_except s) = job_queue s"
      by (elim disjE exE) simp_all
    with Scheduler_raises reachable_step.IH show ?thesis
      by (simp add: step_def del: get_value.simps)
  qed
qed

section \<open>The run, step by step\<close>

lemma ex_batches:
  "create_batches (\<lambda>n. CHR ''b'' # replicate n CHR ''b'') [1, 2, 3, 4] =
     [\<lparr>batch_id = ''b'', ids = [1, 2, 3], status = YET_TO_START\<rparr>,
      \<lparr>batch_id = ''bb'', ids = [4], status = YET_TO_START\<rparr>]"
  by (simp add: create_batches_def create_batches_loop.simps)

lemma ex_ingest_ok: "event_ok (init_system 100 []) ex_ingest"
  by (simp add: event_ok_def ex_ingest_def ex_batches init_system_def stored_batches_def)

lemma ex_ingested:
  "step ex_ingest (init_system 100 []) =
     ex_state [(0, ex_job YET_TO_START YET_TO_START)] 0 YET_TO_START YET_TO_START 100 Loop_head"
  by (simp add: step_def ex_ingest_def ingest_data_def valid_id_def Let_def IngestionJob_init_def
      ex_batches init_system_def ex_state_def ex_job_def redis_set_def redis_key_def pq_put_def
      IngestionJob_to_dict_def Batch_to_dict_def get_overall_status_def)

lemma ex_popped:
  "run [Scheduler, Scheduler, Scheduler]
     (ex_state [(0, ex_job YET_TO_START YET_TO_START)] 0 YET_TO_START YET_TO_START 100 Loop_head) =
   ex_state [] 0 YET_TO_START YET_TO_START 100 (Batch_trigger (ex_job YET_TO_START YET_TO_START) 0)"
  by (simp add: step_def process_jobs_step_def ex_state_def pq_get_def)

lemma ex_triggered:
  "step Scheduler
     (ex_state [] 0 YET_TO_START YET_TO_START 100 (Batch_trigger (ex_job YET_TO_START YET_TO_START) 0)) =
   ex_state [] 0 TRIGGERED YET_TO_START 100 (Batch_work (ex_job TRIGGERED YET_TO_START) 0 101)"
  by (simp add: step_def process_jobs_step_def ex_state_def ex_job_def Let_def set_status_def
      update_redis_status_def redis_set_def)

lemma ex_completed:
  "run [Tick 1, Scheduler]
     (ex_state [] 0 TRIGGERED YET_TO_START 100 (Batch_work (ex_job TRIGGERED YET_TO_START) 0 101)) =
   ex_state [] 0 COMPLETED YET_TO_START 101 (Batch_trigger (ex_job COMPLETED YET_TO_START) 1)"
  by (simp add: step_def process_jobs_step_def ex_state_def ex_job_def Let_def set_status_def
      update_redis_status_def redis_set_def)

lemma ex_second:
  "run [Scheduler, Tick 1, Scheduler]
     (ex_state [] 0 COMPLETED YET_TO_START 101 (Batch_trigger (ex_job COMPLETED YET_TO_START) 1)) =
   ex_state [] 0 COMPLETED COMPLETED 102 (Batch_trigger (ex_job COMPLETED COMPLETED) 2)"
  by (simp add: step_def process_jobs_step_def ex_state_def ex_job_def Let_def set_status_def
      update_redis_status_def redis_set_def)

lemma ex_throttled:
  "run [Scheduler, Scheduler, Tick 5, Scheduler]
     (step Scheduler
        (ex_state [] 0 COMPLETED COMPLETED 102 (Batch_trigger (ex_job COMPLETED COMPLETED) 2))) =
   ex_state [] 102 COMPLETED COMPLETED 107 Queue_check"
  by (simp add: step_def process_jobs_step_def ex_state_def ex_job_def)

lemma ex_at_trigger_eq:
  "ex_at_trigger =
     ex_state [] 0 YET_TO_START YET_TO_START 100 (Batch_trigger (ex_job YET_TO_START YET_TO_START) 0)"
  unfolding ex_at_trigger_def by (simp only: run.simps(2) [of ex_ingest] ex_ingested ex_popped)

lemma ex_at_work_eq:
  "ex_at_work =
     ex_state [] 0 TRIGGERED YET_TO_START 100 (Batch_work (ex_job TRIGGERED YET_TO_START) 0 101)"
  unfolding ex_at_work_def by (simp only: ex_at_trigger_eq ex_triggered)

lemma ex_done_eq:
  "ex_done = ex_state [] 0 COMPLETED COMPLETED 102 (Batch_trigger (ex_job COMPLETED COMPLETED) 2)"
  unfolding ex_done_def by (simp only: ex_at_work_eq ex_completed ex_second)

lemma event_ok_simple [simp]:
  "event_ok s Scheduler" "event_ok s Scheduler_raises" "event_ok s (Get_status iid)"
  "event_ok s (Tick d) \<longleftrightarrow> 0 \<le> d"
  by (simp_all add: event_ok_def)

lemma ex_at_trigger_reachable: "reachable ex_at_trigger"
  unfolding ex_at_trigger_def
  by (rule reachable_run [OF reachable_init]) (simp_all add: store_ok_def ex_ingest_ok)

lemma ex_at_work_reachable: "reachable ex_at_work"
  unfolding ex_at_work_def
  by (rule reachable_step [OF ex_at_trigger_reachable]) simp

lemma ex_done_reachable: "reachable ex_done"
  unfolding ex_done_def
  by (intro reachable_run ex_at_work_reachable) simp_all

theorem batch_status_forward_witness:
  "persisted_status ex_at_trigger ''b'' = Some YET_TO_START
   \<and> persisted_status (step Scheduler ex_at_trigger) ''b'' = Some TRIGGERED
   \<and> memory_status ex_at_trigger ''b'' = Some YET_TO_START
   \<and> memory_status (step Scheduler ex_at_trigger) ''b'' = Some TRIGGERED
   \<and> moves_forward ex_at_trigger (step Scheduler ex_at_trigger)"
  using batch_status_forward [OF ex_at_trigger_reachable, of Scheduler]
  by (simp add: ex_at_trigger_eq ex_triggered)
     (simp add: persisted_status_def memory_status_def memory_jobs_def in_flight_def ex_state_def
        ex_job_def stored_batches_def)

theorem dispatch_order_witness:
  "loop_at ex_at_work = Batch_work (ex_job TRIGGERED YET_TO_START) 0 101
   \<and> clock ex_at_work < 101
   \<and> fst (get_status ''a'' ex_at_work) =
       Inr \<lparr>jd_ingestion_id = ''a'', jd_status = YET_TO_START,
           jd_batches = [\<lparr>bd_batch_id = ''b'', bd_ids = [1, 2, 3], bd_status = TRIGGERED\<rparr>,
                         \<lparr>bd_batch_id = ''bb'', bd_ids = [4], bd_status = YET_TO_START\<rparr>]\<rparr>
   \<and> step Scheduler ex_at_work = ex_at_work
   \<and> loop_at ex_at_trigger = Batch_trigger (ex_job YET_TO_START YET_TO_START) 0
   \<and> loop_at (step Scheduler ex_at_trigger) =
       Batch_work (set_status (ex_job YET_TO_START YET_TO_START) 0 TRIGGERED) 0 (clock ex_at_trigger + 1)"
  using dispatch_order [OF ex_at_work_reachable] dispatch_order [OF ex_at_trigger_reachable]
  by (simp add: ex_at_work_eq ex_at_trigger_eq)
     (simp add: ex_state_def ex_job_def get_status_def redis_get_def redis_key_def)

lemma cx_end_eq:
  "cx_end =
     cx_state [(2, cx_job ''c'' ''d'' 2 LOW YET_TO_START)] TRIGGERED 101
       (Batch_work (cx_job ''a'' ''b'' 1 HIGH TRIGGERED) 0 101)"
  by (simp add: cx_end_def cx_state_def cx_job_def cx_record_def init_system_def step_def
      ingest_data_def valid_id_def Let_def IngestionJob_init_def create_batches_def
      create_batches_loop.simps redis_set_def redis_key_def pq_put_def IngestionJob_to_dict_def
      Batch_to_dict_def get_overall_status_def process_jobs_step_def pq_get_def entry_lt_def
      set_status_def update_redis_status_def)

lemma cx_start_eq:
  "cx_start = cx_state [(2, cx_job ''c'' ''d'' 2 LOW YET_TO_START)] TRIGGERED 102 Queue_check"
  by (simp add: cx_start_def cx_end_eq cx_state_def step_def process_jobs_except_def
      process_jobs_step_def)

lemma cx_end_reachable: "reachable cx_end"
  unfolding cx_end_def
  by (rule reachable_run [OF reachable_init])
    (simp_all add: store_ok_def event_ok_def init_system_def step_def ingest_data_def valid_id_def
      Let_def IngestionJob_init_def create_batches_def create_batches_loop.simps redis_set_def
      redis_key_def IngestionJob_to_dict_def Batch_to_dict_def stored_batches_def)

theorem dispatch_spacing_witness:
  "loop_at ex_done = Batch_trigger (ex_job COMPLETED COMPLETED) 2
   \<and> loop_at (run [Scheduler, Scheduler, Tick 5, Scheduler] (step Scheduler ex_done)) = Queue_check
   \<and> clock ex_done + 5 \<le> clock (run [Scheduler, Scheduler, Tick 5, Scheduler] (step Scheduler ex_done))
   \<and> (\<exists>job'. loop_at (run [Scheduler, Scheduler] (step (Tick 1) ex_at_work)) = Batch_work job' 1 102)
   \<and> loop_at cx_end = Batch_work (cx_job ''a'' ''b'' 1 HIGH TRIGGERED) 0 101
   \<and> loop_at (step Scheduler_raises cx_end) = Error_sleep 102"
proof -
  have r: "reachable (step (Tick 1) ex_at_work)"
    by (rule reachable_step [OF ex_at_work_reachable]) simp
  have w: "step (Tick 1) ex_at_work =
      ex_state [] 0 TRIGGERED YET_TO_START 101 (Batch_work (ex_job TRIGGERED YET_TO_START) 0 101)"
    by (simp add: ex_at_work_eq step_def ex_state_def)
  have c: "loop_at cx_end = Batch_work (cx_job ''a'' ''b'' 1 HIGH TRIGGERED) 0 101" "clock cx_end = 101"
    by (simp_all add: cx_end_eq cx_state_def)
  show ?thesis
    using dispatch_spacing [OF ex_done_reachable, THEN conjunct1, rule_format,
        of "ex_job COMPLETED COMPLETED" 2 "[Scheduler, Scheduler, Tick 5, Scheduler]"]
      dispatch_spacing [OF r, THEN conjunct2, THEN conjunct1, rule_format,
        of "ex_job TRIGGERED YET_TO_START" 0 101]
      dispatch_spacing [OF cx_end_reachable, THEN conjunct2, THEN conjunct2, THEN conjunct2,
        THEN conjunct2, rule_format, of "cx_job ''a'' ''b'' 1 HIGH TRIGGERED" 0 101]
    by (simp add: ex_done_eq ex_throttled w c del: run.simps)
       (simp add: ex_state_def ex_job_def step_def process_jobs_step_def Let_def set_status_def)
qed

text \<open>
  C6, as the claim states it: every pair of successive dispatches is at least 5 units
  apart, from the end of the earlier one to the start of the later one. In the second
  run the work on the only batch of the first job is over at clock 101 and the store
  call that follows raises, which ends that dispatch; the loop sleeps 1 unit, finds
  nothing to wait for (\<open>last_processed_time\<close> is still 0) and pops the second job at
  clock 102.
\<close>

theorem dispatch_spacing_counterexample:
  "reachable cx_end
   \<and> loop_at cx_end = Batch_work (cx_job ''a'' ''b'' 1 HIGH TRIGGERED) 0 101
   \<and> clock cx_end = 101
   \<and> events_ok cx_end [Scheduler_raises, Tick 1, Scheduler, Scheduler, Scheduler]
   \<and> cx_start = run [Scheduler_raises, Tick 1, Scheduler, Scheduler, Scheduler] cx_end
   \<and> loop_at cx_start = Queue_check
   \<and> clock cx_start = 102
   \<and> loop_at (step Scheduler cx_start) = Batch_trigger (cx_job ''c'' ''d'' 2 LOW YET_TO_START) 0
   \<and> \<not> clock cx_end + 5 \<le> clock cx_start"
proof (intro conjI)
  show "reachable cx_end" by (rule cx_end_reachable)
  show "loop_at cx_end = Batch_work (cx_job ''a'' ''b'' 1 HIGH TRIGGERED) 0 101"
    by (simp add: cx_end_eq cx_state_def)
  show "clock cx_end = 101"
    by (simp add: cx_end_eq cx_state_def)
  show "events_ok cx_end [Scheduler_raises, Tick 1, Scheduler, Scheduler, Scheduler]"
    by simp
  show "cx_start = run [Scheduler_raises, Tick 1, Scheduler, Scheduler, Scheduler] cx_end"
    by (simp only: cx_start_def)
  show "loop_at cx_start = Queue_check"
    by (simp add: cx_start_eq cx_state_def)
  show "clock cx_start = 102"
    by (simp add: cx_start_eq cx_state_def)
  show "loop_at (step Scheduler cx_start) = Batch_trigger (cx_job ''c'' ''d'' 2 LOW YET_TO_START) 0"
    by (simp add: cx_start_eq cx_state_def step_def process_jobs_step_def pq_get_def)
  show "\<not> clock cx_end + 5 \<le> clock cx_start"
    by (simp add: cx_end_eq cx_start_eq cx_state_def)
qed

text \<open>
  C1. The claim: after every batch status transition the stored record's overall status
  equals the derivation rule applied to the batch statuses of that record. In the run
  above the record keeps the overall status written at ingestion: \<open>yet_to_start\<close> while
  a batch is triggered (the rule gives \<open>triggered\<close>), and \<open>yet_to_start\<close> when all
  batches are completed (the rule gives \<open>completed\<close>).
\<close>

theorem update_redis_status_stale_overall:
  "fst (get_status ''a'' ex_at_work) =
       Inr \<lparr>jd_ingestion_id = ''a'', jd_status = YET_TO_START,
           jd_batches = [\<lparr>bd_batch_id = ''b'', bd_ids = [1, 2, 3], bd_status = TRIGGERED\<rparr>,
                         \<lparr>bd_batch_id = ''bb'', bd_ids = [4], bd_status = YET_TO_START\<rparr>]\<rparr>
   \<and> derivation_rule [TRIGGERED, YET_TO_START] = TRIGGERED
   \<and> fst (get_status ''a'' ex_done) =
       Inr \<lparr>jd_ingestion_id = ''a'', jd_status = YET_TO_START,
           jd_batches = [\<lparr>bd_batch_id = ''b'', bd_ids = [1, 2, 3], bd_status = COMPLETED\<rparr>,
                         \<lparr>bd_batch_id = ''bb'', bd_ids = [4], bd_status = COMPLETED\<rparr>]\<rparr>
   \<and> derivation_rule [COMPLETED, COMPLETED] = COMPLETED"
  by (simp add: ex_at_work_eq ex_done_eq ex_state_def get_status_def redis_get_def redis_key_def
      derivation_rule_def)

lemma get_overall_status_derivation:
  "get_overall_status j = derivation_rule (map status (batches j))"
  by (simp add: get_overall_status_def derivation_rule_def Let_def)

end
